theory Spec2Isabelle
  imports Main "HOL-Library.Char_ord" "HOL-Library.List_Lexorder" "HOL-Library.Multiset"
begin

section \<open>The specification generator (generate-specs.js)\<close>

text \<open>
  The generator reads OpenRPC documents written in YAML, lets the library
  \<^verbatim>\<open>@apidevtools/json-schema-ref-parser\<close> resolve every reference, flattens the
  \<^verbatim>\<open>allOf\<close> compositions with the library \<^verbatim>\<open>json-schema-merge-allof\<close>, removes the
  \<^verbatim>\<open>components\<close> section, sorts the \<^verbatim>\<open>methods\<close> and writes one JSON file per document.

  The two libraries, the file system and the collation order of the host are not part of the
  generator: they are the fields of an environment record, and every theorem that does not
  name a concrete environment holds for all of them.
\<close>

subsection \<open>Documents\<close>

text \<open>
  A parsed document is a tree of JavaScript values. An object is the list of its own
  properties in enumeration order. Numbers are taken to be integers. The tree has value
  semantics: a subtree that the reference parser shares between two places is two equal
  subtrees here.
\<close>

datatype json =
    JNull
  | JBool bool
  | JNum int
  | JStr string
  | JArr "json list"
  | JObj "(string \<times> json) list"

text \<open>JavaScript truthiness, as \<^verbatim>\<open>if (v)\<close> and \<^verbatim>\<open>!v\<close> test it.\<close>

fun truthy :: "json \<Rightarrow> bool" where
  "truthy JNull = False"
| "truthy (JBool b) = b"
| "truthy (JNum n) = (n \<noteq> 0)"
| "truthy (JStr s) = (s \<noteq> [])"
| "truthy (JArr xs) = True"
| "truthy (JObj kvs) = True"

text \<open>
  \<^verbatim>\<open>v.k\<close> for the keys the generator reads (\<^verbatim>\<open>allOf\<close>, \<^verbatim>\<open>components\<close>, \<^verbatim>\<open>methods\<close>,
  \<^verbatim>\<open>name\<close>): the own property of an object, and \<^verbatim>\<open>undefined\<close> (\<open>None\<close>) on an array,
  a string, a number or a boolean, none of which has a property of these names. Reading a
  property of \<^verbatim>\<open>null\<close> throws; the callers below test for \<open>JNull\<close> first.
\<close>

fun get_prop :: "json \<Rightarrow> string \<Rightarrow> json option" where
  "get_prop (JObj kvs) k = map_of kvs k"
| "get_prop v k = None"

definition truthy_prop :: "json \<Rightarrow> string \<Rightarrow> bool" where
  "truthy_prop v k = (case get_prop v k of None \<Rightarrow> False | Some x \<Rightarrow> truthy x)"

subsection \<open>Strings and paths\<close>

fun str_startsWith :: "string \<Rightarrow> string \<Rightarrow> bool" where
  "str_startsWith s [] = True"
| "str_startsWith [] (p # ps) = False"
| "str_startsWith (c # cs) (p # ps) = (c = p \<and> str_startsWith cs ps)"

definition str_endsWith :: "string \<Rightarrow> string \<Rightarrow> bool" where
  "str_endsWith s p = str_startsWith (rev s) (rev p)"

fun str_includes :: "string \<Rightarrow> string \<Rightarrow> bool" where
  "str_includes [] p = (p = [])"
| "str_includes (c # cs) p = (str_startsWith (c # cs) p \<or> str_includes cs p)"

text \<open>Node's \<^verbatim>\<open>path\<close> module on POSIX paths.\<close>

definition is_slash :: "char \<Rightarrow> bool" where
  "is_slash c = (c = CHR ''/'')"

definition is_dot :: "char \<Rightarrow> bool" where
  "is_dot c = (c = CHR ''.'')"

definition basename :: "string \<Rightarrow> string" where
  "basename p = rev (takeWhile (\<lambda>c. \<not> is_slash c) (dropWhile is_slash (rev p)))"

definition extname :: "string \<Rightarrow> string" where
  "extname p =
     (let b = basename p;
          e = takeWhile (\<lambda>c. \<not> is_dot c) (rev b);
          stem = rev (drop (Suc (length e)) (rev b))
      in if \<not> list_ex is_dot b then []
         else if stem = [] then []
         else if b = ''..'' then []
         else CHR ''.'' # rev e)"

definition basename_ext :: "string \<Rightarrow> string \<Rightarrow> string" where
  "basename_ext p ext =
     (let b = basename p
      in if ext \<noteq> [] \<and> ext = p then []
         else if ext \<noteq> [] \<and> str_endsWith b ext \<and> b \<noteq> ext
           then take (length b - length ext) b
         else b)"

definition isAbsolute :: "string \<Rightarrow> bool" where
  "isAbsolute p = (case p of [] \<Rightarrow> False | c # cs \<Rightarrow> is_slash c)"

definition dirname :: "string \<Rightarrow> string" where
  "dirname d =
     (let up = rev (drop 1 (dropWhile (\<lambda>c. \<not> is_slash c) (rev d)))
      in if up = [] then ''/'' else up)"

text \<open>
  \<^verbatim>\<open>path.join(dir, name)\<close> for a normalised absolute directory and a name without a
  slash, which is all the generator joins: a base name or an entry of a directory listing.
\<close>

definition join_path :: "string \<Rightarrow> string \<Rightarrow> string" where
  "join_path dir name =
     (if name = [] \<or> name = ''.'' then dir
      else if name = ''..'' then dirname dir
      else dir @ ''/'' @ name)"

subsection \<open>The environment\<close>

text \<open>
  What the generator calls and does not define. A thrown error is the \<open>Inl\<close> of its message.
  \<^item> \<open>SPECS_DIR\<close>: the absolute path of \<^verbatim>\<open>alchemy/specs\<close>;
  \<^item> \<open>mkdirSync\<close>: \<open>None\<close> when the output directory exists or can be created;
  \<^item> \<open>readdirSync\<close>: the names in \<open>SPECS_DIR\<close>;
  \<^item> \<open>existsSync\<close>: whether a path exists;
  \<^item> \<open>dereference\<close>: \<^verbatim>\<open>$RefParser.dereference(path, {dereference: {circular: false}})\<close>;
  \<^item> \<open>mergeAllOf\<close>: the merge library applied to one object;
  \<^item> \<open>localeCompare\<close>: \<^verbatim>\<open>a.localeCompare(b)\<close> in the host's locale;
  \<^item> \<open>engineSort\<close>: what \<^verbatim>\<open>Array.prototype.sort\<close> does with the generator's comparator on
    an array of two or more entries one of which has no string \<^verbatim>\<open>name\<close>: which calls of
    the comparator it makes, and so whether one of them throws, is left to the engine;
  \<^item> \<open>writeFileSync\<close>: \<open>None\<close> when the file is written, given its path below the output
    directory and the document serialised.
\<close>

record env =
  SPECS_DIR :: string
  mkdirSync :: "string option"
  readdirSync :: "string + string list"
  existsSync :: "string \<Rightarrow> bool"
  dereference :: "string \<Rightarrow> string + json"
  mergeAllOf :: "json \<Rightarrow> string + json"
  localeCompare :: "string \<Rightarrow> string \<Rightarrow> int"
  engineSort :: "json list \<Rightarrow> string + json list"
  writeFileSync :: "string \<Rightarrow> json \<Rightarrow> string option"

subsection \<open>mergeAllOfSchemas\<close>

text \<open>
  The recursion follows the source. The call on the library's result is not on a smaller
  value, so the function takes fuel, one unit per call; \<open>None\<close> is a run that needs more.
  The result is the list of warnings printed (the messages of the caught errors, in order)
  and the value returned. The function has no way to throw: the only \<^verbatim>\<open>try\<close> block
  catches what the library throws and returns the object as it is.

  The copy of an object (lines 79 to 83) starts from \<^verbatim>\<open>{}\<close> and assigns with
  \<^verbatim>\<open>result[key] = ...\<close>, once for every entry. For the key \<^verbatim>\<open>__proto__\<close> that assignment
  calls the setter inherited from \<^verbatim>\<open>Object.prototype\<close>, which creates no property: the value
  is still walked, and its warnings printed, but the copy has no such key, and nothing of
  what is under it is written. \<open>assigned\<close> is the list of the properties that the
  assignments create. A value under the setter becomes the prototype of the copy when it is
  an object; the model holds the own properties of a value only, which are what
  \<^verbatim>\<open>delete\<close>, the spread and \<^verbatim>\<open>JSON.stringify\<close> work on.
\<close>

definition assigned :: "(string \<times> json) list \<Rightarrow> (string \<times> json) list" where
  "assigned kvs = filter (\<lambda>kv. fst kv \<noteq> ''__proto__'') kvs"

fun mergeAllOfSchemas ::
  "nat \<Rightarrow> (json \<Rightarrow> string + json) \<Rightarrow> json \<Rightarrow> (string list \<times> json) option" where
  "mergeAllOfSchemas 0 M obj = None"
| "mergeAllOfSchemas (Suc n) M (JArr xs) =
     (case those (map (mergeAllOfSchemas n M) xs) of
        None \<Rightarrow> None
      | Some rs \<Rightarrow> Some (concat (map fst rs), JArr (map snd rs)))"
| "mergeAllOfSchemas (Suc n) M (JObj kvs) =
     (if truthy_prop (JObj kvs) ''allOf'' then
        (case M (JObj kvs) of
           Inl msg \<Rightarrow> Some ([msg], JObj kvs)
         | Inr merged \<Rightarrow> mergeAllOfSchemas n M merged)
      else
        (case those (map (\<lambda>kv. mergeAllOfSchemas n M (snd kv)) kvs) of
           None \<Rightarrow> None
         | Some rs \<Rightarrow>
             Some (concat (map fst rs), JObj (assigned (zip (map fst kvs) (map snd rs))))))"
| "mergeAllOfSchemas (Suc n) M obj = Some ([], obj)"

subsection \<open>Objects: property order, delete, spread\<close>

text \<open>
  An object enumerates its array-index keys first, in ascending numeric order, then its
  other string keys in the order of their creation. An array index is the canonical decimal
  form of a number below \<open>2^32 - 1\<close>.
\<close>

fun show_nat :: "nat \<Rightarrow> string" where
  "show_nat n =
     (if n < 10 then [''0123456789'' ! n]
      else show_nat (n div 10) @ [''0123456789'' ! (n mod 10)])"

declare show_nat.simps [simp del]

definition is_digit :: "char \<Rightarrow> bool" where
  "is_digit c = (CHR ''0'' \<le> c \<and> c \<le> CHR ''9'')"

definition is_array_index :: "string \<Rightarrow> bool" where
  "is_array_index k =
     (k \<noteq> [] \<and> list_all is_digit k \<and> (k = ''0'' \<or> \<not> str_startsWith k ''0'')
      \<and> (length k < 10 \<or> (length k = 10 \<and> k < ''4294967295'')))"

text \<open>The numeric order of two array indices, read off their canonical decimal forms.\<close>

definition index_less :: "string \<Rightarrow> string \<Rightarrow> bool" where
  "index_less a b = (length a < length b \<or> (length a = length b \<and> a < b))"

definition has_key :: "(string \<times> json) list \<Rightarrow> string \<Rightarrow> bool" where
  "has_key kvs k = list_ex (\<lambda>kv. fst kv = k) kvs"

fun insert_index :: "string \<times> json \<Rightarrow> (string \<times> json) list \<Rightarrow> (string \<times> json) list" where
  "insert_index new [] = [new]"
| "insert_index new (kv # kvs) =
     (if is_array_index (fst kv) \<and> index_less (fst kv) (fst new)
      then kv # insert_index new kvs else new # kv # kvs)"

text \<open>\<^verbatim>\<open>obj[k] = v\<close>: an existing key keeps its place, a new one goes where the order puts it.\<close>

fun replace_prop :: "(string \<times> json) list \<Rightarrow> string \<Rightarrow> json \<Rightarrow> (string \<times> json) list" where
  "replace_prop [] k v = []"
| "replace_prop (kv # kvs) k v =
     (if fst kv = k then (k, v) # kvs else kv # replace_prop kvs k v)"

definition set_prop :: "(string \<times> json) list \<Rightarrow> string \<Rightarrow> json \<Rightarrow> (string \<times> json) list" where
  "set_prop kvs k v =
     (if has_key kvs k then replace_prop kvs k v
      else if is_array_index k then insert_index (k, v) kvs
      else kvs @ [(k, v)])"

text \<open>\<^verbatim>\<open>delete obj[k]\<close>.\<close>

definition delete_prop :: "(string \<times> json) list \<Rightarrow> string \<Rightarrow> (string \<times> json) list" where
  "delete_prop kvs k = filter (\<lambda>kv. fst kv \<noteq> k) kvs"

text \<open>
  The own enumerable properties that \<^verbatim>\<open>{...v}\<close> copies: those of an object, the elements
  of an array under their indices, the characters of a string under theirs, and none of a
  number, a boolean or \<^verbatim>\<open>null\<close>.
\<close>

fun own_entries :: "json \<Rightarrow> (string \<times> json) list" where
  "own_entries (JObj kvs) = kvs"
| "own_entries (JArr xs) = zip (map show_nat [0..<length xs]) xs"
| "own_entries (JStr s) = zip (map show_nat [0..<length s]) (map (\<lambda>c. JStr [c]) s)"
| "own_entries v = []"

definition spread_into :: "(string \<times> json) list \<Rightarrow> json \<Rightarrow> (string \<times> json) list" where
  "spread_into base v = foldl (\<lambda>acc kv. set_prop acc (fst kv) (snd kv)) base (own_entries v)"

subsection \<open>Sorting the methods\<close>

text \<open>
  \<^verbatim>\<open>merged.methods.sort((a, b) => a.name.localeCompare(b.name))\<close>.
  \<^verbatim>\<open>Array.prototype.sort\<close> is stable, and with a consistent comparator its result is the
  one stable sorted arrangement, whatever algorithm the engine runs; insertion from the
  right computes it. \<open>name_of\<close> is the \<^verbatim>\<open>name\<close> of an entry when it is a string.
\<close>

fun name_of :: "json \<Rightarrow> string option" where
  "name_of (JObj kvs) = (case map_of kvs ''name'' of Some (JStr s) \<Rightarrow> Some s | _ \<Rightarrow> None)"
| "name_of v = None"

fun insort_by :: "(string \<Rightarrow> string \<Rightarrow> int) \<Rightarrow> string \<times> json \<Rightarrow> (string \<times> json) list \<Rightarrow> (string \<times> json) list" where
  "insort_by cmp x [] = [x]"
| "insort_by cmp x (y # ys) =
     (if cmp (fst y) (fst x) < 0 then y # insort_by cmp x ys else x # y # ys)"

definition sort_by :: "(string \<Rightarrow> string \<Rightarrow> int) \<Rightarrow> (string \<times> json) list \<Rightarrow> (string \<times> json) list" where
  "sort_by cmp xs = foldr (insort_by cmp) xs []"

definition with_names :: "json list \<Rightarrow> (string \<times> json) list option" where
  "with_names ms = those (map (\<lambda>m. map_option (\<lambda>n. (n, m)) (name_of m)) ms)"

definition sortMethods :: "env \<Rightarrow> json list \<Rightarrow> string + json list" where
  "sortMethods e ms =
     (if length ms \<le> 1 then Inr ms
      else case with_names ms of
             Some nms \<Rightarrow> Inr (map snd (sort_by (localeCompare e) nms))
           | None \<Rightarrow> engineSort e ms)"

subsection \<open>dereferenceSpec\<close>

text \<open>The lines the generator prints, without the timings and the method counts.\<close>

datatype event =
    Processing string
  | CouldNotMerge string
  | DereferenceError string
  | Dereferenced
  | WrittenTo string
  | FailedToProcess string string
  | SharedComponentChanged
  | FileNotFound string
  | Regenerating string
  | GeneratingAll
  | NoSpecFilesFound
  | FoundSpecFiles nat
  | GenerationComplete nat nat

text \<open>
  Lines 29 to 37 of the source: remove \<^verbatim>\<open>components\<close> when it is truthy, sort
  \<^verbatim>\<open>methods\<close> when it is an array. On \<^verbatim>\<open>null\<close> the first property read throws.
\<close>

definition finishSpec :: "env \<Rightarrow> json \<Rightarrow> string + json" where
  "finishSpec e merged =
     (case merged of
        JNull \<Rightarrow> Inl ''Cannot read properties of null (reading components)''
      | JObj kvs \<Rightarrow>
          (let kept = (if truthy_prop (JObj kvs) ''components''
                       then delete_prop kvs ''components'' else kvs)
           in case map_of kept ''methods'' of
                Some (JArr ms) \<Rightarrow>
                  (case sortMethods e ms of
                     Inl msg \<Rightarrow> Inl msg
                   | Inr arranged \<Rightarrow> Inr (JObj (set_prop kept ''methods'' (JArr arranged))))
              | _ \<Rightarrow> Inr (JObj kept))
      | v \<Rightarrow> Inr v)"

text \<open>
  The result is the console output and either the error thrown again by the \<^verbatim>\<open>catch\<close>
  block or the pair of \<^verbatim>\<open>fileName\<close> and \<^verbatim>\<open>spec\<close>.
\<close>

definition dereferenceSpec ::
  "nat \<Rightarrow> env \<Rightarrow> string \<Rightarrow> (event list \<times> (string + string \<times> json)) option" where
  "dereferenceSpec fuel e filePath =
     (let fileName = basename_ext filePath (extname filePath)
      in case dereference e filePath of
           Inl msg \<Rightarrow> Some ([Processing fileName, DereferenceError msg], Inl msg)
         | Inr dereferenced \<Rightarrow>
             (case mergeAllOfSchemas fuel (mergeAllOf e) dereferenced of
                None \<Rightarrow> None
              | Some (warnings, merged) \<Rightarrow>
                  (case finishSpec e merged of
                     Inl msg \<Rightarrow>
                       Some (Processing fileName # map CouldNotMerge warnings
                               @ [DereferenceError msg], Inl msg)
                   | Inr spec \<Rightarrow>
                       Some (Processing fileName # map CouldNotMerge warnings
                               @ [Dereferenced], Inr (fileName, spec)))))"

subsection \<open>writeSpec\<close>

text \<open>
  The key and the text of the warning; the text starts with the UTF-8 bytes of the warning
  sign and a space.
\<close>

definition WARNING_KEY :: string where
  "WARNING_KEY = ''x-generated-warning''"

definition WARNING_TEXT :: string where
  "WARNING_TEXT =
     [CHR 0xE2, CHR 0x9A, CHR 0xA0, CHR 0xEF, CHR 0xB8, CHR 0x8F]
       @ '' This file is auto-generated from alchemy/specs/. Do not edit manually.''"

text \<open>The object literal \<^verbatim>\<open>{ 'x-generated-warning': ..., ...spec }\<close>.\<close>

definition warned :: "json \<Rightarrow> json" where
  "warned spec = JObj (spread_into [(WARNING_KEY, JStr WARNING_TEXT)] spec)"

text \<open>
  The file written is named by its path below the output directory, and its content is
  the value that \<^verbatim>\<open>JSON.stringify\<close> serialises: equal values give equal bytes.
\<close>

definition writeSpec :: "env \<Rightarrow> string \<Rightarrow> json \<Rightarrow> event list \<times> (string + string \<times> json)" where
  "writeSpec e fileName spec =
     (let outputPath = fileName @ ''.json''; output = warned spec
      in case writeFileSync e outputPath output of
           Some msg \<Rightarrow> ([], Inl msg)
         | None \<Rightarrow> ([WrittenTo fileName], Inr (outputPath, output)))"

subsection \<open>generateSpecs\<close>

text \<open>
  What became of one file of \<^verbatim>\<open>specFiles\<close>: \<^verbatim>\<open>dereferenceSpec\<close> threw, or its result was
  pushed on \<^verbatim>\<open>results\<close> and then \<^verbatim>\<open>writeSpec\<close> either threw or wrote the file.
\<close>

datatype file_result =
    DereferenceFailed string
  | WriteFailed string
  | Generated string json

fun in_results :: "file_result \<Rightarrow> bool" where
  "in_results (DereferenceFailed msg) = False"
| "in_results (WriteFailed msg) = True"
| "in_results (Generated path output) = True"

fun artifact :: "file_result \<Rightarrow> (string \<times> json) option" where
  "artifact (Generated path output) = Some (path, output)"
| "artifact r = None"

text \<open>The body of the callback mapped over \<^verbatim>\<open>specFiles\<close> (lines 161 to 171).\<close>

definition processFile :: "nat \<Rightarrow> env \<Rightarrow> string \<Rightarrow> (event list \<times> file_result) option" where
  "processFile fuel e file =
     (case dereferenceSpec fuel e file of
        None \<Rightarrow> None
      | Some (out, Inl msg) \<Rightarrow>
          Some (out @ [FailedToProcess (basename file) msg], DereferenceFailed msg)
      | Some (out, Inr (fileName, spec)) \<Rightarrow>
          (case writeSpec e fileName spec of
             (out2, Inl msg) \<Rightarrow>
               Some (out @ out2 @ [FailedToProcess (basename file) msg], WriteFailed msg)
           | (out2, Inr (path, output)) \<Rightarrow> Some (out @ out2, Generated path output)))"

datatype outcome = Resolved | Rejected string

text \<open>
  A run: how the promise of \<^verbatim>\<open>generateSpecs\<close> settles, the console, and for every file
  of \<^verbatim>\<open>specFiles\<close> what became of it. The callbacks share nothing but the console and the
  \<^verbatim>\<open>results\<close> array, so the model runs them one after the other in the order of
  \<^verbatim>\<open>specFiles\<close>; in a real run the lines of different files may interleave.
\<close>

record run =
  outcome :: outcome
  console :: "event list"
  files :: "(string \<times> file_result) list"

text \<open>Lines 117 to 155: the files to process, or the early return.\<close>

datatype selection = Return "event list" outcome | SpecFiles "event list" "string list"

definition eligible :: "string \<Rightarrow> bool" where
  "eligible file =
     ((str_endsWith file ''.yaml'' \<or> str_endsWith file ''.yml'') \<and> \<not> str_startsWith file ''_'')"

definition fullBuild :: "env \<Rightarrow> event list \<Rightarrow> selection" where
  "fullBuild e printed =
     (case readdirSync e of
        Inl msg \<Rightarrow> Return (printed @ [GeneratingAll]) (Rejected msg)
      | Inr names \<Rightarrow>
          (let specFiles = map (join_path (SPECS_DIR e)) (filter eligible names)
           in if length specFiles = 0
              then Return (printed @ [GeneratingAll, NoSpecFilesFound]) Resolved
              else SpecFiles (printed @ [GeneratingAll, FoundSpecFiles (length specFiles)])
                     specFiles))"

definition selectFiles :: "env \<Rightarrow> string option \<Rightarrow> selection" where
  "selectFiles e specificFile =
     (case specificFile of
        None \<Rightarrow> fullBuild e []
      | Some p \<Rightarrow>
          if p = [] then fullBuild e []
          else
            (let fileName = basename p
             in if str_startsWith fileName ''_'' \<or> str_includes p ''_components''
                then fullBuild e [SharedComponentChanged]
                else
                  (let fullPath = (if isAbsolute p then p else join_path (SPECS_DIR e) fileName)
                   in if \<not> existsSync e fullPath
                      then Return [FileNotFound fullPath] Resolved
                      else SpecFiles [Regenerating fileName] [fullPath])))"

definition generateSpecs :: "nat \<Rightarrow> env \<Rightarrow> string option \<Rightarrow> run option" where
  "generateSpecs fuel e specificFile =
     (case mkdirSync e of
        Some msg \<Rightarrow> Some \<lparr>outcome = Rejected msg, console = [], files = []\<rparr>
      | None \<Rightarrow>
          (case selectFiles e specificFile of
             Return out how \<Rightarrow> Some \<lparr>outcome = how, console = out, files = []\<rparr>
           | SpecFiles out specFiles \<Rightarrow>
               (case those (map (processFile fuel e) specFiles) of
                  None \<Rightarrow> None
                | Some rs \<Rightarrow>
                    Some \<lparr>outcome = Resolved,
                          console = out @ concat (map fst rs)
                            @ [GenerationComplete (length (filter in_results (map snd rs)))
                                 (length specFiles)],
                          files = zip specFiles (map snd rs)\<rparr>)))"

text \<open>
  The command line: \<^verbatim>\<open>process.argv[2]\<close> is the argument or \<^verbatim>\<open>undefined\<close>, and the
  process exits with 1 only from the \<^verbatim>\<open>catch\<close> of a rejected promise.
\<close>

definition exitCode :: "run \<Rightarrow> nat" where
  "exitCode r = (case outcome r of Resolved \<Rightarrow> 0 | Rejected msg \<Rightarrow> 1)"

definition written :: "run \<Rightarrow> (string \<times> json) list" where
  "written r = List.map_filter (\<lambda>fr. artifact (snd fr)) (files r)"

subsection \<open>A concrete environment\<close>

text \<open>
  Stand-ins for the environment, used only where a theorem is evaluated at a concrete
  input.

  \<open>sample_mergeAllOf\<close> does what the merge library does on the simplest compositions: it
  throws when two components declare different \<^verbatim>\<open>type\<close>s, and otherwise copies the
  components' keys, in list order, after the node's own keys other than \<^verbatim>\<open>allOf\<close>. It
  does not take a component that is itself a composition.
\<close>

definition sample_mergeAllOf :: "json \<Rightarrow> string + json" where
  "sample_mergeAllOf obj =
     (case get_prop obj ''allOf'' of
        Some (JArr components) \<Rightarrow>
          if length (remdups (List.map_filter (\<lambda>c. get_prop c ''type'') components)) > 1
          then Inl ''Could not resolve values for path:type. They are probably incompatible.''
          else if list_ex (\<lambda>c. has_key (own_entries c) ''allOf'') components
          then Inl ''nested composition''
          else Inr (JObj (foldl spread_into (delete_prop (own_entries obj) ''allOf'') components))
      | _ \<Rightarrow> Inl ''allOf must be an array'')"

text \<open>
  \<open>letters_compare\<close> is the order of the Unicode root collation on words of ASCII letters:
  alphabetical without regard to case, and between words that differ in case only, the
  lower-case letter first at the first difference. It says nothing true of other characters.
\<close>

definition is_upper :: "char \<Rightarrow> bool" where
  "is_upper c = (CHR ''A'' \<le> c \<and> c \<le> CHR ''Z'')"

definition to_lower :: "char \<Rightarrow> char" where
  "to_lower c = (if is_upper c then char_of (of_char c + (32::nat)) else c)"

definition letters_compare :: "string \<Rightarrow> string \<Rightarrow> int" where
  "letters_compare a b =
     (let la = map to_lower a; lb = map to_lower b;
          ua = map is_upper a; ub = map is_upper b
      in if la < lb then - 1 else if lb < la then 1
         else if ua < ub then - 1 else if ub < ua then 1 else 0)"

text \<open>
  \<open>sample_env docs\<close>: the specs directory \<^verbatim>\<open>/repo/alchemy/specs\<close> holds the files named in
  \<open>docs\<close>, each with what the reference parser makes of it; every write succeeds.
\<close>

definition sample_path :: "string \<Rightarrow> string" where
  "sample_path name = ''/repo/alchemy/specs/'' @ name"

definition sample_env :: "(string \<times> (string + json)) list \<Rightarrow> env" where
  "sample_env docs =
     \<lparr>SPECS_DIR = ''/repo/alchemy/specs'',
      mkdirSync = None,
      readdirSync = Inr (map fst docs),
      existsSync = (\<lambda>p. list_ex (\<lambda>d. sample_path (fst d) = p) docs),
      dereference = (\<lambda>p. case map_of (map (\<lambda>d. (sample_path (fst d), snd d)) docs) p of
                            None \<Rightarrow> Inl ''ENOENT: no such file or directory''
                          | Some parsed \<Rightarrow> parsed),
      mergeAllOf = sample_mergeAllOf,
      localeCompare = letters_compare,
      engineSort = (\<lambda>ms. Inl ''Cannot read properties of undefined (reading localeCompare)''),
      writeFileSync = (\<lambda>path output. None)\<rparr>"

text \<open>Three documents, as the reference parser returns them.\<close>

definition eth_doc :: json where
  "eth_doc =
     JObj [(''openrpc'', JStr ''1.2.4''),
           (''methods'',
             JArr [JObj [(''name'', JStr ''zeta''), (''params'', JArr [])],
                   JObj [(''name'', JStr ''alpha''),
                         (''result'', JObj [(''allOf'',
                            JArr [JObj [(''type'', JStr ''string'')],
                                  JObj [(''pattern'', JStr ''^0x'')]])])],
                   JObj [(''name'', JStr ''alpha''), (''summary'', JStr ''second'')]]),
           (''components'', JObj [(''schemas'', JObj [])])]"

definition conflict_doc :: json where
  "conflict_doc =
     JObj [(''methods'',
             JArr [JObj [(''name'', JStr ''m''),
                         (''result'', JObj [(''allOf'',
                            JArr [JObj [(''type'', JStr ''string'')],
                                  JObj [(''type'', JStr ''object'')]])])]])]"

definition marked_doc :: json where
  "marked_doc =
     JObj [(''openrpc'', JStr ''1.2.4''), (''x-generated-warning'', JStr ''mine'')]"

definition cased_doc :: json where
  "cased_doc =
     JObj [(''methods'',
             JArr [JObj [(''name'', JStr ''Zeta'')], JObj [(''name'', JStr ''alpha'')]])]"

subsection \<open>Properties of documents and of the environment\<close>

text \<open>The number of object nodes of a tree whose \<^verbatim>\<open>allOf\<close> is truthy.\<close>

fun allOf_count :: "json \<Rightarrow> nat" where
  "allOf_count (JArr xs) = sum_list (map allOf_count xs)"
| "allOf_count (JObj kvs) =
     (if truthy_prop (JObj kvs) ''allOf'' then 1 else 0)
       + sum_list (map (\<lambda>kv. allOf_count (snd kv)) kvs)"
| "allOf_count v = 0"

text \<open>Some node of the tree is an object with a key \<^verbatim>\<open>allOf\<close>.\<close>

fun carries_allOf :: "json \<Rightarrow> bool" where
  "carries_allOf (JArr xs) = list_ex carries_allOf xs"
| "carries_allOf (JObj kvs) =
     (has_key kvs ''allOf'' \<or> list_ex (\<lambda>kv. carries_allOf (snd kv)) kvs)"
| "carries_allOf v = False"

text \<open>
  A merge library that makes progress: what it returns has fewer compositions than what it
  was given. The recursion of \<open>mergeAllOfSchemas\<close> ends for such a library.
\<close>

definition reducing :: "(json \<Rightarrow> string + json) \<Rightarrow> bool" where
  "reducing M = (\<forall>obj merged. M obj = Inr merged \<longrightarrow> allOf_count merged < allOf_count obj)"

text \<open>A sort that does not throw returns an arrangement of the array it was given.\<close>

definition permuting :: "(json list \<Rightarrow> string + json list) \<Rightarrow> bool" where
  "permuting S = (\<forall>ms arranged. S ms = Inr arranged \<longrightarrow> mset arranged = mset ms)"

text \<open>
  A consistent comparator: \<open>cmp a b < 0\<close> is a strict weak order. \<open>not_after cmp a b\<close> says
  that \<open>b\<close> does not come strictly before \<open>a\<close>.
\<close>

definition not_after :: "(string \<Rightarrow> string \<Rightarrow> int) \<Rightarrow> string \<Rightarrow> string \<Rightarrow> bool" where
  "not_after cmp a b = (\<not> cmp b a < 0)"

definition consistent :: "(string \<Rightarrow> string \<Rightarrow> int) \<Rightarrow> bool" where
  "consistent cmp =
     ((\<forall>a b. cmp a b < 0 \<longrightarrow> \<not> cmp b a < 0)
      \<and> (\<forall>a b c. not_after cmp a b \<longrightarrow> not_after cmp b c \<longrightarrow> not_after cmp a c))"

text \<open>The names of the entries of an array of methods, where they are strings.\<close>

definition names_of :: "json list \<Rightarrow> string list" where
  "names_of ms = List.map_filter name_of ms"

text \<open>
  The line \<^verbatim>\<open>Failed to process ...\<close> that the \<^verbatim>\<open>catch\<close> of the callback prints for a
  file, and the lines of the console that are of this kind.
\<close>

fun failure_line :: "string \<times> file_result \<Rightarrow> event option" where
  "failure_line (file, DereferenceFailed msg) = Some (FailedToProcess (basename file) msg)"
| "failure_line (file, WriteFailed msg) = Some (FailedToProcess (basename file) msg)"
| "failure_line (file, Generated path output) = None"

fun is_failure :: "event \<Rightarrow> bool" where
  "is_failure (FailedToProcess name msg) = True"
| "is_failure ev = False"

definition plain_doc :: json where
  "plain_doc = JObj [(''openrpc'', JStr ''1.2.4'')]"

text \<open>
  A JavaScript value: the keys of every object are distinct. An environment returns such
  values when the reference parser does, the merge library does on such a value, and the
  sort returns an arrangement of its array.
\<close>

fun well_formed :: "json \<Rightarrow> bool" where
  "well_formed (JArr xs) = list_all well_formed xs"
| "well_formed (JObj kvs) =
     (distinct (map fst kvs) \<and> list_all (\<lambda>kv. well_formed (snd kv)) kvs)"
| "well_formed v = True"

definition javascript_values :: "env \<Rightarrow> bool" where
  "javascript_values e =
     ((\<forall>file d. dereference e file = Inr d \<longrightarrow> well_formed d)
      \<and> (\<forall>obj merged. well_formed obj \<longrightarrow> mergeAllOf e obj = Inr merged \<longrightarrow> well_formed merged)
      \<and> permuting (engineSort e))"

subsection \<open>The place of a node in a document\<close>




text \<open>The composition of \<open>conflict_doc\<close>, on which the stand-in for the merge library throws.\<close>

definition conflict_node :: json where
  "conflict_node =
     JObj [(''allOf'', JArr [JObj [(''type'', JStr ''string'')],
                              JObj [(''type'', JStr ''object'')]])]"

subsection \<open>The reference resolver of the specification\<close>

text \<open>
  Modelled from the spec: the Reference Resolver (section 4.1) with its Resolution Context
  (section 3). In the source the resolver is the library call
  \<^verbatim>\<open>$RefParser.dereference(filePath, {dereference: {circular: false}})\<close>, whose code is not
  in the repository; what follows is written from the words of the specification.

  A location is a document and a path within it. A reference node is a mapping with the
  single key \<^verbatim>\<open>$ref\<close> whose value is a location expression: a path within the same document,
  or \<^verbatim>\<open>document#path\<close>, where an empty document means this document. The store is the
  content-loading capability: the raw tree of every document that can be loaded.
\<close>

type_synonym location = "string \<times> string list"

type_synonym store = "(string \<times> json) list"

type_synonym cache = "(location \<times> json) list"

datatype resolve_error = CircularReference "location list" | ResolutionFailure location

definition REFERENCE_KEY :: string where
  "REFERENCE_KEY = ''$ref''"

fun reference_of :: "json \<Rightarrow> string option" where
  "reference_of (JObj [(k, JStr expr)]) = (if k = REFERENCE_KEY then Some expr else None)"
| "reference_of node = None"

fun split_on :: "char \<Rightarrow> string \<Rightarrow> string list" where
  "split_on c [] = [[]]"
| "split_on c (x # xs) =
     (if x = c then [] # split_on c xs
      else case split_on c xs of [] \<Rightarrow> [[x]] | w # ws \<Rightarrow> (x # w) # ws)"

definition path_segments :: "string \<Rightarrow> string list" where
  "path_segments p = filter (\<lambda>s. s \<noteq> []) (split_on CHR ''/'' p)"

definition parse_location :: "string \<Rightarrow> string \<Rightarrow> location" where
  "parse_location current expr =
     (if CHR ''#'' \<in> set expr
      then (let document = takeWhile (\<lambda>c. c \<noteq> CHR ''#'') expr;
                path = drop 1 (dropWhile (\<lambda>c. c \<noteq> CHR ''#'') expr)
            in (if document = [] then current else document, path_segments path))
      else (current, path_segments expr))"

text \<open>The children of a mapping or a sequence, the elements of a sequence by their index.\<close>

fun node_children :: "json \<Rightarrow> (string \<times> json) list" where
  "node_children (JObj kvs) = kvs"
| "node_children (JArr xs) = zip (map show_nat [0..<length xs]) xs"
| "node_children v = []"

fun lookup_path :: "json \<Rightarrow> string list \<Rightarrow> json option" where
  "lookup_path node [] = Some node"
| "lookup_path node (s # ss) =
     (case map_of (node_children node) s of
        None \<Rightarrow> None
      | Some child \<Rightarrow> lookup_path child ss)"

text \<open>The subtree at a location; \<open>None\<close> for an unreadable document or an invalid path.\<close>

definition target :: "store \<Rightarrow> location \<Rightarrow> json option" where
  "target store loc =
     (case map_of store (fst loc) of
        None \<Rightarrow> None
      | Some document \<Rightarrow> lookup_path document (snd loc))"

text \<open>
  The children of a node are resolved from left to right, each with the cache the one
  before it left; the first error ends the traversal.
\<close>

fun thread ::
  "('c \<Rightarrow> 'a \<Rightarrow> ('e + 'b \<times> 'c) option) \<Rightarrow> 'c \<Rightarrow> 'a list \<Rightarrow> ('e + 'b list \<times> 'c) option" where
  "thread f c [] = Some (Inr ([], c))"
| "thread f c (x # xs) =
     (case f c x of
        None \<Rightarrow> None
      | Some (Inl err) \<Rightarrow> Some (Inl err)
      | Some (Inr (y, c')) \<Rightarrow>
          (case thread f c' xs of
             None \<Rightarrow> None
           | Some (Inl err) \<Rightarrow> Some (Inl err)
           | Some (Inr (ys, c'')) \<Rightarrow> Some (Inr (y # ys, c''))))"

text \<open>
  The traversal is depth first. \<open>in_progress\<close> is the set of locations being resolved on the
  current path, and the cache maps a location to its resolved subtree. A location is first
  looked for among those in progress: when it is there, the resolver fails with the
  circular-reference error, which names the cycle. Otherwise a cached subtree is used again,
  or the target is loaded, resolved with its location in progress, cached and put in the
  place of the reference node. The recursion on a target is not on a smaller tree, so the
  function takes fuel, one unit per call; \<open>None\<close> is a run that needs more.
\<close>

fun resolve ::
  "nat \<Rightarrow> store \<Rightarrow> string \<Rightarrow> location list \<Rightarrow> cache \<Rightarrow> json
     \<Rightarrow> (resolve_error + json \<times> cache) option" where
  "resolve 0 store current in_progress cache node = None"
| "resolve (Suc n) store current in_progress cache node =
     (case reference_of node of
        Some expr \<Rightarrow>
          (let loc = parse_location current expr
           in if loc \<in> set in_progress
              then Some (Inl (CircularReference (loc # in_progress)))
              else case map_of cache loc of
                     Some resolved \<Rightarrow> Some (Inr (resolved, cache))
                   | None \<Rightarrow>
                       (case target store loc of
                          None \<Rightarrow> Some (Inl (ResolutionFailure loc))
                        | Some subtree \<Rightarrow>
                            (case resolve n store (fst loc) (loc # in_progress) cache subtree of
                               None \<Rightarrow> None
                             | Some (Inl err) \<Rightarrow> Some (Inl err)
                             | Some (Inr (resolved, cache')) \<Rightarrow>
                                 Some (Inr (resolved, (loc, resolved) # cache')))))
      | None \<Rightarrow>
          (case node of
             JArr xs \<Rightarrow>
               (case thread (resolve n store current in_progress) cache xs of
                  None \<Rightarrow> None
                | Some (Inl err) \<Rightarrow> Some (Inl err)
                | Some (Inr (ys, cache')) \<Rightarrow> Some (Inr (JArr ys, cache')))
           | JObj kvs \<Rightarrow>
               (case thread (resolve n store current in_progress) cache (map snd kvs) of
                  None \<Rightarrow> None
                | Some (Inl err) \<Rightarrow> Some (Inl err)
                | Some (Inr (ys, cache')) \<Rightarrow> Some (Inr (JObj (zip (map fst kvs) ys), cache')))
           | v \<Rightarrow> Some (Inr (v, cache))))"

text \<open>The text of an error, and the resolver as the pipeline calls it on an entry document.\<close>

definition show_location :: "location \<Rightarrow> string" where
  "show_location loc = fst loc @ ''#'' @ concat (map (\<lambda>s. ''/'' @ s) (snd loc))"

fun error_message :: "resolve_error \<Rightarrow> string" where
  "error_message (CircularReference cycle) =
     ''Circular reference:'' @ concat (map (\<lambda>loc. '' '' @ show_location loc) (rev cycle))"
| "error_message (ResolutionFailure loc) = ''Cannot resolve '' @ show_location loc"

definition resolveDocument :: "nat \<Rightarrow> store \<Rightarrow> string \<Rightarrow> (string + json) option" where
  "resolveDocument fuel store entry =
     (case map_of store entry of
        None \<Rightarrow> Some (Inl (error_message (ResolutionFailure (entry, []))))
      | Some document \<Rightarrow>
          (case resolve fuel store entry [] [] document of
             None \<Rightarrow> None
           | Some (Inl err) \<Rightarrow> Some (Inl (error_message err))
           | Some (Inr (resolved, cache)) \<Rightarrow> Some (Inr resolved)))"

text \<open>
  The reference graph: the locations that the reference nodes of a tree name, and the step
  from a location to a location named in its target. A location is on a circular chain when
  it reaches itself in one step or more; a document contains a circular chain when one of
  its references reaches such a location.
\<close>

fun refs_in :: "string \<Rightarrow> json \<Rightarrow> location list" where
  "refs_in current (JArr xs) = concat (map (refs_in current) xs)"
| "refs_in current (JObj kvs) =
     (case reference_of (JObj kvs) of
        Some expr \<Rightarrow> [parse_location current expr]
      | None \<Rightarrow> concat (map (\<lambda>kv. refs_in current (snd kv)) kvs))"
| "refs_in current v = []"

definition ref_step :: "store \<Rightarrow> location \<Rightarrow> location \<Rightarrow> bool" where
  "ref_step store a b = (\<exists>t. target store a = Some t \<and> b \<in> set (refs_in (fst a) t))"

definition circular :: "store \<Rightarrow> string \<Rightarrow> json \<Rightarrow> bool" where
  "circular store entry document =
     (\<exists>a b. a \<in> set (refs_in entry document) \<and> (ref_step store)\<^sup>*\<^sup>* a b \<and> (ref_step store)\<^sup>+\<^sup>+ b b)"

text \<open>Every reference of every document of the store names a location that can be loaded.\<close>

definition closed :: "store \<Rightarrow> bool" where
  "closed store =
     (\<forall>d document. map_of store d = Some document
        \<longrightarrow> (\<forall>loc \<in> set (refs_in d document). target store loc \<noteq> None))"

text \<open>
  Two documents that refer to each other, and a document whose first reference names a
  document that is not in the store and whose second reference names itself.
\<close>

definition cyclic_doc :: json where
  "cyclic_doc =
     JObj [(''methods'', JArr [JObj [(''name'', JStr ''m''),
             (''result'', JObj [(''$ref'', JStr ''/repo/alchemy/specs/b.yaml#/schemas/B'')])]])]"

definition cyclic_store :: store where
  "cyclic_store =
     [(''/repo/alchemy/specs/a.yaml'', cyclic_doc),
      (''/repo/alchemy/specs/b.yaml'',
        JObj [(''schemas'', JObj [(''B'', JObj [(''items'',
                JObj [(''$ref'', JStr ''/repo/alchemy/specs/a.yaml#/methods/0/result'')])])])])]"

definition dangling_doc :: json where
  "dangling_doc =
     JObj [(''first'', JObj [(''$ref'', JStr ''/repo/alchemy/specs/missing.yaml#/x'')]),
           (''second'', JObj [(''$ref'', JStr ''#/second'')])]"

definition dangling_store :: store where
  "dangling_store = [(''/repo/alchemy/specs/c.yaml'', dangling_doc)]"

text \<open>
  \<open>closed\<close>, as a check of the references of the documents listed in the store; and a
  circular-reference error whose cycle starts at a location that occurs in it again.
\<close>

definition all_loadable :: "store \<Rightarrow> bool" where
  "all_loadable store =
     list_all (\<lambda>d. list_all (\<lambda>loc. target store loc \<noteq> None) (refs_in (fst d) (snd d))) store"

fun names_cycle :: "resolve_error \<Rightarrow> bool" where
  "names_cycle (CircularReference cycle) = (cycle \<noteq> [] \<and> hd cycle \<in> set (tl cycle))"
| "names_cycle (ResolutionFailure loc) = False"

text \<open>A location from which the references lead to a circular chain.\<close>

definition leads_to_cycle :: "store \<Rightarrow> location \<Rightarrow> bool" where
  "leads_to_cycle store a = (\<exists>b. (ref_step store)\<^sup>*\<^sup>* a b \<and> (ref_step store)\<^sup>+\<^sup>+ b b)"

section \<open>Properties\<close>

subsection \<open>Fuel\<close>

lemma those_map_Some:
  "those (map f xs) = Some ys \<longleftrightarrow> list_all2 (\<lambda>x y. f x = Some y) xs ys"
  by (induction xs arbitrary: ys) (auto split: option.splits simp: list_all2_Cons1)

lemma those_map_None:
  "those (map f xs) = None \<longleftrightarrow> (\<exists>x\<in>set xs. f x = None)"
  by (induction xs) (auto split: option.splits)

lemma mergeAllOfSchemas_mono:
  "mergeAllOfSchemas n M d = Some r \<Longrightarrow> n \<le> m \<Longrightarrow> mergeAllOfSchemas m M d = Some r"
proof (induction n arbitrary: m d r)
  case 0
  then show ?case by simp
next
  case (Suc n)
  from Suc.prems(2) obtain m' where m: "m = Suc m'" and le: "n \<le> m'"
    by (cases m) auto
  show ?case
  proof (cases d)
    case (JArr xs)
    with Suc.prems(1) obtain rs where
      rs: "those (map (mergeAllOfSchemas n M) xs) = Some rs"
      and r: "r = (concat (map fst rs), JArr (map snd rs))"
      by (auto split: option.splits)
    from rs have "list_all2 (\<lambda>x y. mergeAllOfSchemas n M x = Some y) xs rs"
      by (simp add: those_map_Some)
    then have "list_all2 (\<lambda>x y. mergeAllOfSchemas m' M x = Some y) xs rs"
      by (rule list_all2_mono) (use Suc.IH le in blast)
    then have "those (map (mergeAllOfSchemas m' M) xs) = Some rs"
      by (simp add: those_map_Some)
    with r JArr m show ?thesis by simp
  next
    case (JObj kvs)
    show ?thesis
    proof (cases "truthy_prop (JObj kvs) ''allOf''")
      case True
      show ?thesis
      proof (cases "M (JObj kvs)")
        case (Inl msg)
        with True Suc.prems(1) JObj m show ?thesis by simp
      next
        case (Inr merged)
        with True Suc.prems(1) JObj have "mergeAllOfSchemas n M merged = Some r" by simp
        from Suc.IH [OF this le] Inr True JObj m show ?thesis by simp
      qed
    next
      case False
      with Suc.prems(1) JObj obtain rs where
        rs: "those (map (\<lambda>kv. mergeAllOfSchemas n M (snd kv)) kvs) = Some rs"
        and r: "r = (concat (map fst rs), JObj (assigned (zip (map fst kvs) (map snd rs))))"
        by (auto split: option.splits)
      from rs have "list_all2 (\<lambda>x y. mergeAllOfSchemas n M (snd x) = Some y) kvs rs"
        by (simp add: those_map_Some)
      then have "list_all2 (\<lambda>x y. mergeAllOfSchemas m' M (snd x) = Some y) kvs rs"
        by (rule list_all2_mono) (use Suc.IH le in blast)
      then have "those (map (\<lambda>kv. mergeAllOfSchemas m' M (snd kv)) kvs) = Some rs"
        by (simp add: those_map_Some)
      with r JObj m False show ?thesis by simp
    qed
  qed (use Suc.prems(1) m in auto)
qed

lemma common_fuel:
  "(\<forall>x\<in>set xs. \<exists>n. \<forall>m\<ge>n. P m x) \<Longrightarrow> \<exists>N::nat. \<forall>x\<in>set xs. \<forall>m\<ge>N. P m x"
proof (induction xs)
  case Nil
  then show ?case by simp
next
  case (Cons x xs)
  then obtain N where N: "\<forall>y\<in>set xs. \<forall>m\<ge>N. P m y" by auto
  from Cons.prems obtain n where n: "\<forall>m\<ge>n. P m x" by auto
  have "\<forall>y\<in>set (x # xs). \<forall>m\<ge>max n N. P m y"
    using N n by auto
  then show ?case by blast
qed

lemma allOf_count_member: "x \<in> set xs \<Longrightarrow> allOf_count x \<le> sum_list (map allOf_count xs)"
  by (induction xs) auto

lemma allOf_count_value:
  "kv \<in> set kvs \<Longrightarrow> allOf_count (snd kv) \<le> sum_list (map (\<lambda>kv. allOf_count (snd kv)) kvs)"
  by (induction kvs) auto

lemma size_member: "x \<in> set xs \<Longrightarrow> size x < size (JArr xs)"
  by (induction xs) auto

lemma size_value: "kv \<in> set kvs \<Longrightarrow> size (snd kv) < size (JObj kvs)"
  by (induction kvs) auto

lemma mergeAllOfSchemas_total:
  assumes M: "reducing M"
  shows "\<exists>n. \<forall>m\<ge>n. mergeAllOfSchemas m M d \<noteq> None"
proof (induction d rule: wf_induct_rule [OF wf_measures [of "[allOf_count, size]"]])
  case (1 d)
  have IH: "\<exists>n. \<forall>m\<ge>n. mergeAllOfSchemas m M y \<noteq> None"
    if "allOf_count y < allOf_count d \<or> (allOf_count y = allOf_count d \<and> size y < size d)" for y
    using 1 [of y] that by auto
  have children: "\<exists>n. \<forall>m\<ge>n. mergeAllOfSchemas m M d \<noteq> None"
    if sub: "\<And>x. x \<in> set xs \<Longrightarrow> allOf_count x \<le> allOf_count d \<and> size x < size d"
    and step: "\<And>m. mergeAllOfSchemas (Suc m) M d =
        (case those (map (mergeAllOfSchemas m M) xs) of None \<Rightarrow> None | Some rs \<Rightarrow> Some (g rs))"
    for xs g
  proof -
    have "\<forall>x\<in>set xs. \<exists>n. \<forall>m\<ge>n. mergeAllOfSchemas m M x \<noteq> None"
    proof
      fix x assume "x \<in> set xs"
      from sub [OF this] have "allOf_count x < allOf_count d
          \<or> (allOf_count x = allOf_count d \<and> size x < size d)" by linarith
      then show "\<exists>n. \<forall>m\<ge>n. mergeAllOfSchemas m M x \<noteq> None" by (rule IH)
    qed
    then obtain N where N: "\<forall>x\<in>set xs. \<forall>m\<ge>N. mergeAllOfSchemas m M x \<noteq> None"
      using common_fuel [of xs "\<lambda>m x. mergeAllOfSchemas m M x \<noteq> None"] by blast
    have "mergeAllOfSchemas m M d \<noteq> None" if "m \<ge> Suc N" for m
    proof -
      from that obtain m' where m: "m = Suc m'" and "N \<le> m'" by (cases m) auto
      with N have "those (map (mergeAllOfSchemas m' M) xs) \<noteq> None"
        by (simp add: those_map_None)
      with step [of m'] m show ?thesis by (auto split: option.splits)
    qed
    then show ?thesis by blast
  qed
  show ?case
  proof (cases d)
    case (JArr xs)
    show ?thesis
    proof (rule children [of xs])
      show "allOf_count x \<le> allOf_count d \<and> size x < size d" if "x \<in> set xs" for x
        using that JArr allOf_count_member [of x xs] size_member [of x xs] by simp
      show "mergeAllOfSchemas (Suc m) M d =
        (case those (map (mergeAllOfSchemas m M) xs) of None \<Rightarrow> None
         | Some rs \<Rightarrow> Some (concat (map fst rs), JArr (map snd rs)))" for m
        using JArr by simp
    qed
  next
    case (JObj kvs)
    show ?thesis
    proof (cases "truthy_prop (JObj kvs) ''allOf''")
      case True
      show ?thesis
      proof (cases "M (JObj kvs)")
        case (Inl msg)
        with True JObj have "mergeAllOfSchemas m M d \<noteq> None" if "m \<ge> 1" for m
          using that by (cases m) auto
        then show ?thesis by blast
      next
        case (Inr merged)
        from M Inr have "allOf_count merged < allOf_count (JObj kvs)"
          unfolding reducing_def by blast
        with JObj have "allOf_count merged < allOf_count d" by simp
        with IH obtain n where n: "\<forall>m\<ge>n. mergeAllOfSchemas m M merged \<noteq> None" by blast
        have "mergeAllOfSchemas m M d \<noteq> None" if "m \<ge> Suc n" for m
        proof -
          from that obtain m' where "m = Suc m'" and "n \<le> m'" by (cases m) auto
          with n True JObj Inr show ?thesis by simp
        qed
        then show ?thesis by blast
      qed
    next
      case False
      show ?thesis
      proof (rule children [of "map snd kvs"])
        show "allOf_count x \<le> allOf_count d \<and> size x < size d" if "x \<in> set (map snd kvs)" for x
        proof -
          from that obtain kv where kv: "kv \<in> set kvs" and x: "x = snd kv" by auto
          from allOf_count_value [OF kv] size_value [OF kv] x JObj show ?thesis by simp
        qed
        show "mergeAllOfSchemas (Suc m) M d =
          (case those (map (mergeAllOfSchemas m M) (map snd kvs)) of None \<Rightarrow> None
           | Some rs \<Rightarrow>
               Some (concat (map fst rs), JObj (assigned (zip (map fst kvs) (map snd rs)))))" for m
          using JObj False by (simp add: comp_def)
      qed
    qed
  next
    case JNull
    then have "mergeAllOfSchemas m M d \<noteq> None" if "m \<ge> 1" for m using that by (cases m) auto
    then show ?thesis by blast
  next
    case (JBool b)
    then have "mergeAllOfSchemas m M d \<noteq> None" if "m \<ge> 1" for m using that by (cases m) auto
    then show ?thesis by blast
  next
    case (JNum i)
    then have "mergeAllOfSchemas m M d \<noteq> None" if "m \<ge> 1" for m using that by (cases m) auto
    then show ?thesis by blast
  next
    case (JStr s)
    then have "mergeAllOfSchemas m M d \<noteq> None" if "m \<ge> 1" for m using that by (cases m) auto
    then show ?thesis by blast
  qed
qed

lemma dereferenceSpec_mono:
  assumes "dereferenceSpec n e f = Some r" and "n \<le> m"
  shows "dereferenceSpec m e f = Some r"
proof (cases "dereference e f")
  case (Inl msg)
  with assms(1) show ?thesis by (simp add: dereferenceSpec_def Let_def)
next
  case (Inr d)
  with assms(1) obtain w where w: "mergeAllOfSchemas n (mergeAllOf e) d = Some w"
    by (auto simp: dereferenceSpec_def Let_def split: option.splits)
  from mergeAllOfSchemas_mono [OF this assms(2)] w assms(1) Inr show ?thesis
    by (simp add: dereferenceSpec_def Let_def)
qed

lemma processFile_mono:
  assumes "processFile n e f = Some r" and "n \<le> m"
  shows "processFile m e f = Some r"
proof -
  from assms(1) obtain d where d: "dereferenceSpec n e f = Some d"
    by (auto simp: processFile_def split: option.splits)
  from dereferenceSpec_mono [OF this assms(2)] d assms(1) show ?thesis
    by (simp add: processFile_def)
qed

lemma dereferenceSpec_total:
  assumes "reducing (mergeAllOf e)"
  shows "\<exists>n. \<forall>m\<ge>n. dereferenceSpec m e f \<noteq> None"
proof (cases "dereference e f")
  case (Inl msg)
  then show ?thesis by (simp add: dereferenceSpec_def Let_def)
next
  case (Inr d)
  from mergeAllOfSchemas_total [OF assms, of d] obtain n where
    n: "\<forall>m\<ge>n. mergeAllOfSchemas m (mergeAllOf e) d \<noteq> None" by blast
  have "dereferenceSpec m e f \<noteq> None" if "m \<ge> n" for m
    using n that Inr by (auto simp: dereferenceSpec_def Let_def split: option.splits sum.splits)
  then show ?thesis by blast
qed

lemma processFile_total:
  assumes "reducing (mergeAllOf e)"
  shows "\<exists>n. \<forall>m\<ge>n. processFile m e f \<noteq> None"
proof -
  from dereferenceSpec_total [OF assms, of f] obtain n where
    n: "\<forall>m\<ge>n. dereferenceSpec m e f \<noteq> None" by blast
  have "processFile m e f \<noteq> None" if "m \<ge> n" for m
    using n that by (auto simp: processFile_def split: option.splits sum.splits prod.splits)
  then show ?thesis by blast
qed

lemma generateSpecs_total:
  assumes "reducing (mergeAllOf e)"
  shows "\<exists>n. \<forall>m\<ge>n. generateSpecs m e sf \<noteq> None"
proof (cases "mkdirSync e")
  case (Some msg)
  then show ?thesis by (simp add: generateSpecs_def)
next
  case None
  show ?thesis
  proof (cases "selectFiles e sf")
    case (Return out how)
    with None show ?thesis by (simp add: generateSpecs_def)
  next
    case (SpecFiles out specFiles)
    have "\<forall>f\<in>set specFiles. \<exists>n. \<forall>m\<ge>n. processFile m e f \<noteq> None"
      using processFile_total [OF assms] by blast
    then obtain N where N: "\<forall>f\<in>set specFiles. \<forall>m\<ge>N. processFile m e f \<noteq> None"
      using common_fuel [of specFiles "\<lambda>m f. processFile m e f \<noteq> None"] by blast
    have "generateSpecs m e sf \<noteq> None" if "m \<ge> N" for m
    proof -
      from N that have "those (map (processFile m e) specFiles) \<noteq> None"
        by (simp add: those_map_None)
      with None SpecFiles show ?thesis
        by (auto simp: generateSpecs_def split: option.splits)
    qed
    then show ?thesis by blast
  qed
qed

lemma generateSpecs_mono:
  assumes "generateSpecs n e sf = Some r" and "n \<le> m"
  shows "generateSpecs m e sf = Some r"
proof (cases "mkdirSync e")
  case (Some msg)
  with assms(1) show ?thesis by (simp add: generateSpecs_def)
next
  case None
  show ?thesis
  proof (cases "selectFiles e sf")
    case (Return out how)
    with None assms(1) show ?thesis by (simp add: generateSpecs_def)
  next
    case (SpecFiles out specFiles)
    with None assms(1) obtain rs where rs: "those (map (processFile n e) specFiles) = Some rs"
      by (auto simp: generateSpecs_def split: option.splits)
    then have "list_all2 (\<lambda>f r. processFile n e f = Some r) specFiles rs"
      by (simp add: those_map_Some)
    then have "list_all2 (\<lambda>f r. processFile m e f = Some r) specFiles rs"
      by (rule list_all2_mono) (use processFile_mono assms(2) in blast)
    then have "those (map (processFile m e) specFiles) = Some rs"
      by (simp add: those_map_Some)
    with rs None SpecFiles assms(1) show ?thesis
      by (simp add: generateSpecs_def)
  qed
qed

subsection \<open>Early returns\<close>

text \<open>
  C10. In incremental mode, when the changed path names no shared component and the file it
  stands for does not exist, the run prints that the file was not found and returns: no
  file is processed, the directory is not listed (no full build), and the promise resolves,
  so the process exits with 0. This holds with any fuel, provided the output directory is
  there or can be made.
\<close>

theorem C10_missing_file_returns:
  assumes "mkdirSync e = None"
    and "p \<noteq> []"
    and "\<not> str_startsWith (basename p) ''_''"
    and "\<not> str_includes p ''_components''"
    and "fullPath = (if isAbsolute p then p else join_path (SPECS_DIR e) (basename p))"
    and "\<not> existsSync e fullPath"
  shows "generateSpecs fuel e (Some p)
           = Some \<lparr>outcome = Resolved, console = [FileNotFound fullPath], files = []\<rparr>
         \<and> exitCode \<lparr>outcome = Resolved, console = [FileNotFound fullPath], files = []\<rparr> = 0
         \<and> written \<lparr>outcome = Resolved, console = [FileNotFound fullPath], files = []\<rparr> = []"
  using assms
  by (simp add: generateSpecs_def selectFiles_def Let_def exitCode_def written_def
      List.map_filter_simps)

theorem C10_witness:
  "generateSpecs 0 (sample_env [(''eth.yaml'', Inr eth_doc)]) (Some ''alchemy/specs/gone.yaml'')
     = Some \<lparr>outcome = Resolved,
             console = [FileNotFound ''/repo/alchemy/specs/gone.yaml''], files = []\<rparr>"
proof -
  let ?e = "sample_env [(''eth.yaml'', Inr eth_doc)]"
  let ?p = "''alchemy/specs/gone.yaml''"
  have b: "basename ?p = ''gone.yaml''"
    by (simp add: basename_def is_slash_def)
  have 1: "mkdirSync ?e = None" by (simp add: sample_env_def)
  have 2: "?p \<noteq> []" by simp
  have 3: "\<not> str_startsWith (basename ?p) ''_''" by (simp add: b)
  have 4: "\<not> str_includes ?p ''_components''" by simp
  have 5: "''/repo/alchemy/specs/gone.yaml''
             = (if isAbsolute ?p then ?p else join_path (SPECS_DIR ?e) (basename ?p))"
    by (simp add: b isAbsolute_def is_slash_def join_path_def sample_env_def)
  have 6: "\<not> existsSync ?e ''/repo/alchemy/specs/gone.yaml''"
    by (simp add: sample_env_def sample_path_def)
  from C10_missing_file_returns [OF 1 2 3 4 5 6, of 0] show ?thesis by simp
qed

text \<open>
  C9. A full build that finds no eligible file in the specs directory prints that no spec
  files were found and returns: the promise resolves (exit code 0), no file is attempted,
  nothing is written and nothing is reported as failed. The same holds when the full build
  was entered because the changed path names a shared component.
\<close>

theorem C9_no_eligible_files:
  assumes "mkdirSync e = None"
    and "readdirSync e = Inr names"
    and "filter eligible names = []"
  shows "generateSpecs fuel e None
           = Some \<lparr>outcome = Resolved, console = [GeneratingAll, NoSpecFilesFound], files = []\<rparr>
         \<and> exitCode \<lparr>outcome = Resolved, console = [GeneratingAll, NoSpecFilesFound],
                      files = []\<rparr> = 0
         \<and> (p \<noteq> [] \<and> (str_startsWith (basename p) ''_'' \<or> str_includes p ''_components'')
              \<longrightarrow> generateSpecs fuel e (Some p)
                 = Some \<lparr>outcome = Resolved,
                         console = [SharedComponentChanged, GeneratingAll, NoSpecFilesFound],
                         files = []\<rparr>)"
  using assms
  by (simp add: generateSpecs_def selectFiles_def fullBuild_def Let_def exitCode_def)

theorem C9_witness:
  "generateSpecs 0 (sample_env [(''_shared.yaml'', Inr eth_doc), (''notes.txt'', Inl ''x'')]) None
     = Some \<lparr>outcome = Resolved, console = [GeneratingAll, NoSpecFilesFound], files = []\<rparr>"
proof -
  let ?e = "sample_env [(''_shared.yaml'', Inr eth_doc), (''notes.txt'', Inl ''x'')]"
  have 1: "mkdirSync ?e = None" by (simp add: sample_env_def)
  have 2: "readdirSync ?e = Inr [''_shared.yaml'', ''notes.txt'']" by (simp add: sample_env_def)
  have 3: "filter eligible [''_shared.yaml'', ''notes.txt''] = []"
    by (simp add: eligible_def str_endsWith_def)
  from C9_no_eligible_files [OF 1 2 3, of 0] show ?thesis by simp
qed

subsection \<open>The shape of a run\<close>

lemma list_all2_zip_snd:
  "list_all2 P xs ys \<Longrightarrow> (x, b) \<in> set (zip xs (map snd ys)) \<Longrightarrow> \<exists>a. P x (a, b)"
  by (induction xs ys rule: list_all2_induct) auto


lemma generateSpecs_processed:
  assumes "mkdirSync e = None"
    and "selectFiles e sf = SpecFiles out specFiles"
    and "generateSpecs fuel e sf = Some r"
  shows "\<exists>rs. list_all2 (\<lambda>f res. processFile fuel e f = Some res) specFiles rs
           \<and> r = \<lparr>outcome = Resolved,
                   console = out @ concat (map fst rs)
                     @ [GenerationComplete (length (filter in_results (map snd rs)))
                          (length specFiles)],
                   files = zip specFiles (map snd rs)\<rparr>"
  using assms
  by (auto simp: generateSpecs_def those_map_Some split: option.splits)

lemma generateSpecs_files:
  assumes "generateSpecs fuel e sf = Some r" and "(f, res) \<in> set (files r)"
  shows "\<exists>out. processFile fuel e f = Some (out, res)"
proof (cases "mkdirSync e")
  case (Some msg)
  with assms show ?thesis by (auto simp: generateSpecs_def)
next
  case None
  show ?thesis
  proof (cases "selectFiles e sf")
    case (Return out how)
    with None assms show ?thesis by (auto simp: generateSpecs_def)
  next
    case (SpecFiles out specFiles)
    from generateSpecs_processed [OF None SpecFiles assms(1)] obtain rs where
      rs: "list_all2 (\<lambda>f res. processFile fuel e f = Some res) specFiles rs"
      and r: "files r = zip specFiles (map snd rs)" by auto
    from list_all2_zip_snd [OF rs] assms(2) r show ?thesis by auto
  qed
qed

lemma generateSpecs_attempted:
  assumes "mkdirSync e = None"
    and "selectFiles e sf = SpecFiles out specFiles"
    and "generateSpecs fuel e sf = Some r"
  shows "map fst (files r) = specFiles"
proof -
  from generateSpecs_processed [OF assms] obtain rs where
    rs: "list_all2 (\<lambda>f res. processFile fuel e f = Some res) specFiles rs"
    and r: "files r = zip specFiles (map snd rs)" by auto
  from rs have "length specFiles = length rs" by (rule list_all2_lengthD)
  with r show ?thesis by simp
qed

lemma generateSpecs_lookup:
  assumes "mkdirSync e = None"
    and "selectFiles e sf = SpecFiles out specFiles"
    and "generateSpecs fuel e sf = Some r"
    and "f \<in> set specFiles"
  shows "\<exists>log res. processFile fuel e f = Some (log, res) \<and> map_of (files r) f = Some res"
proof -
  from generateSpecs_attempted [OF assms(1-3)] assms(4) have "f \<in> fst ` set (files r)"
    by (metis list.set_map)
  then obtain res where res: "map_of (files r) f = Some res"
    by (metis domIff dom_map_of_conv_image_fst not_Some_eq)
  then have "(f, res) \<in> set (files r)" by (rule map_of_SomeD)
  from generateSpecs_files [OF assms(3) this] res show ?thesis by blast
qed

lemma processFile_failures:
  "processFile fuel e f = Some (log, res)
    \<Longrightarrow> filter is_failure log = (case failure_line (f, res) of None \<Rightarrow> [] | Some ev \<Rightarrow> [ev])"
  by (auto simp: processFile_def dereferenceSpec_def writeSpec_def Let_def
      split: option.splits sum.splits prod.splits)

lemma selectFiles_no_failure:
  "selectFiles e sf = SpecFiles out specFiles \<Longrightarrow> filter is_failure out = []"
  by (auto simp: selectFiles_def fullBuild_def Let_def split: option.splits sum.splits if_splits)

lemma failures_concat:
  "list_all2 (\<lambda>f r. processFile fuel e f = Some r) specFiles rs
    \<Longrightarrow> filter is_failure (concat (map fst rs))
        = List.map_filter failure_line (zip specFiles (map snd rs))"
proof (induction specFiles rs rule: list_all2_induct)
  case Nil
  then show ?case by (simp add: List.map_filter_simps)
next
  case (Cons f fs r rs)
  obtain log res where r: "r = (log, res)" by (cases r)
  with Cons.hyps(1) have "processFile fuel e f = Some (log, res)" by simp
  from processFile_failures [OF this] Cons.IH r show ?case
    by (simp add: List.map_filter_simps split: option.splits)
qed

lemma generateSpecs_failures:
  assumes "generateSpecs fuel e sf = Some r"
  shows "filter is_failure (console r) = List.map_filter failure_line (files r)"
proof (cases "mkdirSync e")
  case (Some msg)
  with assms show ?thesis by (auto simp: generateSpecs_def List.map_filter_simps)
next
  case None
  show ?thesis
  proof (cases "selectFiles e sf")
    case (Return out how)
    then have "filter is_failure out = []"
      by (auto simp: selectFiles_def fullBuild_def Let_def
          split: option.splits sum.splits if_splits)
    with Return None assms show ?thesis
      by (auto simp: generateSpecs_def List.map_filter_simps)
  next
    case (SpecFiles out specFiles)
    from generateSpecs_processed [OF None SpecFiles assms] obtain rs where
      rs: "list_all2 (\<lambda>f res. processFile fuel e f = Some res) specFiles rs"
      and r: "r = \<lparr>outcome = Resolved,
                   console = out @ concat (map fst rs)
                     @ [GenerationComplete (length (filter in_results (map snd rs)))
                          (length specFiles)],
                   files = zip specFiles (map snd rs)\<rparr>" by auto
    from failures_concat [OF rs] selectFiles_no_failure [OF SpecFiles] r show ?thesis
      by simp
  qed
qed

text \<open>What one file's processing reads of the environment.\<close>

lemma finishSpec_cong:
  assumes "localeCompare e' = localeCompare e" and "engineSort e' = engineSort e"
  shows "finishSpec e' = finishSpec e"
proof -
  have S: "sortMethods e' = sortMethods e"
    unfolding sortMethods_def assms by (rule refl)
  show ?thesis unfolding finishSpec_def S by (rule refl)
qed

lemma processFile_cong:
  assumes "dereference e' f = dereference e f"
    and "mergeAllOf e' = mergeAllOf e"
    and "localeCompare e' = localeCompare e"
    and "engineSort e' = engineSort e"
    and "writeFileSync e' = writeFileSync e"
  shows "processFile fuel e' f = processFile fuel e f"
proof -
  have D: "dereferenceSpec fuel e' f = dereferenceSpec fuel e f"
    unfolding dereferenceSpec_def assms(1,2) finishSpec_cong [OF assms(3,4)] by (rule refl)
  have W: "writeSpec e' = writeSpec e"
    unfolding writeSpec_def assms(5) by (rule refl)
  show ?thesis unfolding processFile_def D W by (rule refl)
qed

lemma selectFiles_dereference:
  "selectFiles (e\<lparr>dereference := d\<rparr>) sf = selectFiles e sf"
proof -
  have F: "fullBuild (e\<lparr>dereference := d\<rparr>) = fullBuild e"
    by (intro ext) (simp add: fullBuild_def split: sum.splits)
  show ?thesis
  proof (cases sf)
    case None
    then show ?thesis by (simp add: selectFiles_def F Let_def cong: if_cong)
  next
    case (Some p)
    then show ?thesis by (simp add: selectFiles_def F Let_def cong: if_cong)
  qed
qed

subsection \<open>Failures and the outcome of a run\<close>


subsection \<open>Keys and compositions under assignment and spread\<close>

lemma has_key_iff: "has_key kvs k \<longleftrightarrow> k \<in> fst ` set kvs"
  by (induction kvs) (auto simp: has_key_def)

lemma keys_replace_prop: "fst ` set (replace_prop kvs k v) = fst ` set kvs" if "k \<in> fst ` set kvs"
  using that by (induction kvs) auto

lemma keys_insert_index: "fst ` set (insert_index new kvs) = insert (fst new) (fst ` set kvs)"
  by (induction kvs) auto

lemma keys_set_prop: "fst ` set (set_prop kvs k v) = insert k (fst ` set kvs)"
  by (auto simp: set_prop_def has_key_iff keys_replace_prop keys_insert_index)

lemma keys_fold_set_prop:
  "fst ` set (foldl (\<lambda>acc kv. set_prop acc (fst kv) (snd kv)) base kvs)
     = fst ` set base \<union> fst ` set kvs"
  by (induction kvs arbitrary: base) (auto simp: keys_set_prop)

lemma keys_spread_into:
  "fst ` set (spread_into base v) = fst ` set base \<union> fst ` set (own_entries v)"
  by (simp add: spread_into_def keys_fold_set_prop)

lemma keys_foldl_spread_into:
  "fst ` set (foldl spread_into base vs)
     = fst ` set base \<union> (\<Union>v\<in>set vs. fst ` set (own_entries v))"
  by (induction vs arbitrary: base) (auto simp: keys_spread_into)

lemma count_replace_prop:
  "sum_list (map (\<lambda>kv. allOf_count (snd kv)) (replace_prop kvs k v))
     \<le> sum_list (map (\<lambda>kv. allOf_count (snd kv)) kvs) + allOf_count v"
  by (induction kvs) auto

lemma count_insert_index:
  "sum_list (map (\<lambda>kv. allOf_count (snd kv)) (insert_index new kvs))
     = sum_list (map (\<lambda>kv. allOf_count (snd kv)) kvs) + allOf_count (snd new)"
  by (induction kvs) auto

lemma count_set_prop:
  "sum_list (map (\<lambda>kv. allOf_count (snd kv)) (set_prop kvs k v))
     \<le> sum_list (map (\<lambda>kv. allOf_count (snd kv)) kvs) + allOf_count v"
  by (simp add: set_prop_def count_replace_prop count_insert_index)

lemma count_fold_set_prop:
  "sum_list (map (\<lambda>kv. allOf_count (snd kv))
       (foldl (\<lambda>acc kv. set_prop acc (fst kv) (snd kv)) base kvs))
     \<le> sum_list (map (\<lambda>kv. allOf_count (snd kv)) base)
         + sum_list (map (\<lambda>kv. allOf_count (snd kv)) kvs)"
proof (induction kvs arbitrary: base)
  case Nil
  then show ?case by simp
next
  case (Cons kv kvs)
  from Cons.IH [of "set_prop base (fst kv) (snd kv)"] count_set_prop [of base "fst kv" "snd kv"]
  show ?case by simp
qed

lemma map_of_assigned:
  "k \<noteq> ''__proto__'' \<Longrightarrow> map_of (assigned kvs) k = map_of kvs k"
  unfolding assigned_def by (induction kvs) auto

lemma set_assigned: "set (assigned kvs) \<subseteq> set kvs"
  unfolding assigned_def by simp

lemma count_assigned_le:
  "sum_list (map (\<lambda>kv. allOf_count (snd kv)) (assigned kvs))
    \<le> sum_list (map (\<lambda>kv. allOf_count (snd kv)) kvs)"
  unfolding assigned_def by (induction kvs) simp_all

lemma distinct_assigned:
  "distinct (map fst kvs) \<Longrightarrow> distinct (map fst (assigned kvs))"
  unfolding assigned_def by (rule distinct_map_filter)

lemma count_zip_le:
  "sum_list (map (\<lambda>kv. allOf_count (snd kv)) (zip ks vs)) \<le> sum_list (map allOf_count vs)"
proof (induction vs arbitrary: ks)
  case Nil
  then show ?case by simp
next
  case (Cons v vs)
  then show ?case by (cases ks) (auto intro: le_trans)
qed

lemma count_own_entries:
  "sum_list (map (\<lambda>kv. allOf_count (snd kv)) (own_entries v)) \<le> allOf_count v"
proof (cases v)
  case (JArr xs)
  then show ?thesis using count_zip_le [of "map show_nat [0..<length xs]" xs] by simp
next
  case (JStr s)
  have "sum_list (map allOf_count (map (\<lambda>c. JStr [c]) s)) = 0"
    by (induction s) auto
  with count_zip_le [of "map show_nat [0..<length s]" "map (\<lambda>c. JStr [c]) s"]
  have "sum_list (map (\<lambda>kv. allOf_count (snd kv))
          (zip (map show_nat [0..<length s]) (map (\<lambda>c. JStr [c]) s))) = 0"
    by linarith
  with JStr show ?thesis by (simp del: sum_list_eq_0_iff)
qed auto

lemma count_spread_into:
  "sum_list (map (\<lambda>kv. allOf_count (snd kv)) (spread_into base v))
     \<le> sum_list (map (\<lambda>kv. allOf_count (snd kv)) base) + allOf_count v"
  using count_fold_set_prop [of base "own_entries v"] count_own_entries [of v]
  by (simp add: spread_into_def)

lemma count_foldl_spread_into:
  "sum_list (map (\<lambda>kv. allOf_count (snd kv)) (foldl spread_into base vs))
     \<le> sum_list (map (\<lambda>kv. allOf_count (snd kv)) base) + sum_list (map allOf_count vs)"
proof (induction vs arbitrary: base)
  case Nil
  then show ?case by simp
next
  case (Cons v vs)
  from Cons.IH [of "spread_into base v"] count_spread_into [of base v]
  show ?case by simp
qed

lemma count_delete_prop:
  "(k, v) \<in> set kvs \<Longrightarrow>
     sum_list (map (\<lambda>kv. allOf_count (snd kv)) (delete_prop kvs k)) + allOf_count v
       \<le> sum_list (map (\<lambda>kv. allOf_count (snd kv)) kvs)"
proof (induction kvs)
  case Nil
  then show ?case by simp
next
  case (Cons kv kvs)
  have le: "sum_list (map (\<lambda>kv. allOf_count (snd kv)) (delete_prop kvs k))
      \<le> sum_list (map (\<lambda>kv. allOf_count (snd kv)) kvs)"
    by (induction kvs) (auto simp: delete_prop_def)
  show ?case
  proof (cases "kv = (k, v)")
    case True
    with le show ?thesis by (simp add: delete_prop_def)
  next
    case False
    with Cons have "sum_list (map (\<lambda>kv. allOf_count (snd kv)) (delete_prop kvs k)) + allOf_count v
       \<le> sum_list (map (\<lambda>kv. allOf_count (snd kv)) kvs)" by simp
    then show ?thesis by (simp add: delete_prop_def)
  qed
qed

lemma sample_mergeAllOf_reducing: "reducing sample_mergeAllOf"
  unfolding reducing_def
proof (intro allI impI)
  fix obj merged
  assume ok: "sample_mergeAllOf obj = Inr merged"
  then obtain kvs where obj: "obj = JObj kvs"
    by (cases obj) (auto simp: sample_mergeAllOf_def)
  from ok obj obtain cs where cs: "map_of kvs ''allOf'' = Some (JArr cs)"
    by (auto simp: sample_mergeAllOf_def split: option.splits json.splits)
  from ok obj cs have flat: "\<not> list_ex (\<lambda>c. has_key (own_entries c) ''allOf'') cs"
    and merged: "merged = JObj (foldl spread_into (delete_prop kvs ''allOf'') cs)"
    by (auto simp: sample_mergeAllOf_def split: if_splits)
  let ?out = "foldl spread_into (delete_prop kvs ''allOf'') cs"
  have "''allOf'' \<notin> fst ` set ?out"
    using flat by (auto simp: keys_foldl_spread_into delete_prop_def list_ex_iff has_key_iff)
  then have "map_of ?out ''allOf'' = None"
    by (simp add: map_of_eq_None_iff)
  then have flag: "\<not> truthy_prop (JObj ?out) ''allOf''"
    by (simp add: truthy_prop_def)
  from cs have "(''allOf'', JArr cs) \<in> set kvs" by (rule map_of_SomeD)
  from count_delete_prop [OF this] count_foldl_spread_into [of "delete_prop kvs ''allOf''" cs]
  have "sum_list (map (\<lambda>kv. allOf_count (snd kv)) ?out)
      \<le> sum_list (map (\<lambda>kv. allOf_count (snd kv)) kvs)" by simp
  moreover from cs have "truthy_prop (JObj kvs) ''allOf''" by (simp add: truthy_prop_def)
  ultimately show "allOf_count merged < allOf_count obj"
    using flag merged obj by simp
qed

lemma sample_env_reducing: "reducing (mergeAllOf (sample_env docs))"
  by (simp add: sample_env_def sample_mergeAllOf_reducing)

lemma generateSpecs_agree:
  assumes "generateSpecs n e sf = Some r" and "generateSpecs m e sf = Some r'"
  shows "r' = r"
proof -
  from generateSpecs_mono [OF assms(1), of "max n m"] generateSpecs_mono [OF assms(2), of "max n m"]
  show ?thesis by simp
qed



subsection \<open>Independence of the files of a batch\<close>

text \<open>
  C8. Take any batch, and replace what the reference parser makes of one file \<open>g\<close> by
  anything else \<open>x\<close>: a document, or an error such as an unresolvable reference. Provided the
  merge library makes progress, both runs return, they attempt the same files in the same
  order, and every file other than \<open>g\<close> has the same result in both: the same artifact
  written, or the same failure. The result of a file in the batch is the result of
  processing it alone. The \<^verbatim>\<open>Failed to process\<close> lines of the console are those of the files
  that failed, one each, in order.
\<close>

theorem C8_failures_are_isolated:
  assumes "reducing (mergeAllOf e)"
  shows "\<exists>n. \<forall>fuel\<ge>n. \<exists>r r'.
           generateSpecs fuel e sf = Some r
         \<and> generateSpecs fuel (e\<lparr>dereference := (dereference e)(g := x)\<rparr>) sf = Some r'
         \<and> map fst (files r') = map fst (files r)
         \<and> (\<forall>i<length (files r). fst (files r ! i) \<noteq> g \<longrightarrow> files r' ! i = files r ! i)
         \<and> (\<forall>f res. (f, res) \<in> set (files r) \<longrightarrow> (\<exists>out. processFile fuel e f = Some (out, res)))
         \<and> filter is_failure (console r) = List.map_filter failure_line (files r)"
proof -
  let ?e' = "e\<lparr>dereference := (dereference e)(g := x)\<rparr>"
  have red': "reducing (mergeAllOf ?e')" using assms by simp
  from generateSpecs_total [OF assms, of sf] obtain n1 where
    n1: "\<forall>m\<ge>n1. generateSpecs m e sf \<noteq> None" by blast
  from generateSpecs_total [OF red', of sf] obtain n2 where
    n2: "\<forall>m\<ge>n2. generateSpecs m ?e' sf \<noteq> None" by blast
  have "\<exists>r r'.
           generateSpecs fuel e sf = Some r
         \<and> generateSpecs fuel ?e' sf = Some r'
         \<and> map fst (files r') = map fst (files r)
         \<and> (\<forall>i<length (files r). fst (files r ! i) \<noteq> g \<longrightarrow> files r' ! i = files r ! i)
         \<and> (\<forall>f res. (f, res) \<in> set (files r) \<longrightarrow> (\<exists>out. processFile fuel e f = Some (out, res)))
         \<and> filter is_failure (console r) = List.map_filter failure_line (files r)"
    if "fuel \<ge> max n1 n2" for fuel
  proof -
    from n1 n2 that obtain r r' where r: "generateSpecs fuel e sf = Some r"
      and r': "generateSpecs fuel ?e' sf = Some r'" by fastforce
    have alone: "\<forall>f res. (f, res) \<in> set (files r)
        \<longrightarrow> (\<exists>out. processFile fuel e f = Some (out, res))"
      using generateSpecs_files [OF r] by blast
    have lines: "filter is_failure (console r) = List.map_filter failure_line (files r)"
      by (rule generateSpecs_failures [OF r])
    have same: "map fst (files r') = map fst (files r)
         \<and> (\<forall>i<length (files r). fst (files r ! i) \<noteq> g \<longrightarrow> files r' ! i = files r ! i)"
    proof (cases "mkdirSync e")
      case (Some msg)
      with r r' show ?thesis by (auto simp: generateSpecs_def)
    next
      case None
      then have None': "mkdirSync ?e' = None" by simp
      show ?thesis
      proof (cases "selectFiles e sf")
        case (Return out how)
        then have "selectFiles ?e' sf = Return out how" by (simp add: selectFiles_dereference)
        with Return None None' r r' show ?thesis by (auto simp: generateSpecs_def)
      next
        case (SpecFiles out fs)
        then have SpecFiles': "selectFiles ?e' sf = SpecFiles out fs"
          by (simp add: selectFiles_dereference)
        from generateSpecs_processed [OF None SpecFiles r] obtain rs where
          rs: "list_all2 (\<lambda>f res. processFile fuel e f = Some res) fs rs"
          and fr: "files r = zip fs (map snd rs)" by auto
        from generateSpecs_processed [OF None' SpecFiles' r'] obtain rs' where
          rs': "list_all2 (\<lambda>f res. processFile fuel ?e' f = Some res) fs rs'"
          and fr': "files r' = zip fs (map snd rs')" by auto
        from rs have len: "length rs = length fs" by (simp add: list_all2_lengthD)
        from rs' have len': "length rs' = length fs" by (simp add: list_all2_lengthD)
        have "files r' ! i = files r ! i" if i: "i < length (files r)" and ne: "fst (files r ! i) \<noteq> g" for i
        proof -
          from i fr len have i': "i < length fs" by simp
          with fr len ne have "fs ! i \<noteq> g" by simp
          then have "processFile fuel ?e' (fs ! i) = processFile fuel e (fs ! i)"
            by (intro processFile_cong) simp_all
          moreover from list_all2_nthD [OF rs i']
          have "processFile fuel e (fs ! i) = Some (rs ! i)" .
          moreover from list_all2_nthD [OF rs' i']
          have "processFile fuel ?e' (fs ! i) = Some (rs' ! i)" .
          ultimately have "rs' ! i = rs ! i" by simp
          with fr fr' len len' i' show ?thesis by simp
        qed
        moreover have "map fst (files r') = map fst (files r)"
          using fr fr' len len' by simp
        ultimately show ?thesis by blast
      qed
    qed
    from r r' same alone lines show ?thesis by blast
  qed
  then show ?thesis by blast
qed

theorem C8_witness:
  "reducing (mergeAllOf (sample_env [(''a.yaml'', Inr plain_doc),
        (''b.yaml'', Inl ''Error resolving $ref pointer''), (''c.yaml'', Inr cased_doc)]))
   \<and> (\<exists>n. \<forall>fuel\<ge>n. \<exists>r r'.
         generateSpecs fuel (sample_env [(''a.yaml'', Inr plain_doc),
           (''b.yaml'', Inl ''Error resolving $ref pointer''), (''c.yaml'', Inr cased_doc)]) None
           = Some r
       \<and> generateSpecs fuel
           ((sample_env [(''a.yaml'', Inr plain_doc),
              (''b.yaml'', Inl ''Error resolving $ref pointer''), (''c.yaml'', Inr cased_doc)])
            \<lparr>dereference :=
               (dereference (sample_env [(''a.yaml'', Inr plain_doc),
                  (''b.yaml'', Inl ''Error resolving $ref pointer''),
                  (''c.yaml'', Inr cased_doc)]))
               (sample_path ''b.yaml'' := Inr plain_doc)\<rparr>) None
           = Some r'
       \<and> map snd (files r)
           = [Generated ''a.json''
                (JObj [(WARNING_KEY, JStr WARNING_TEXT), (''openrpc'', JStr ''1.2.4'')]),
              DereferenceFailed ''Error resolving $ref pointer'',
              Generated ''c.json''
                (JObj [(WARNING_KEY, JStr WARNING_TEXT),
                       (''methods'', JArr [JObj [(''name'', JStr ''alpha'')],
                                            JObj [(''name'', JStr ''Zeta'')]])])]
       \<and> files r' ! 0 = files r ! 0
       \<and> files r' ! 2 = files r ! 2
       \<and> filter is_failure (console r)
           = [FailedToProcess ''b.yaml'' ''Error resolving $ref pointer''])"
proof -
  let ?e = "sample_env [(''a.yaml'', Inr plain_doc),
        (''b.yaml'', Inl ''Error resolving $ref pointer''), (''c.yaml'', Inr cased_doc)]"
  let ?g = "sample_path ''b.yaml''"
  let ?e' = "?e\<lparr>dereference := (dereference ?e)(?g := Inr plain_doc)\<rparr>"
  let ?fs = "[(''/repo/alchemy/specs/a.yaml'',
               Generated ''a.json''
                (JObj [(WARNING_KEY, JStr WARNING_TEXT), (''openrpc'', JStr ''1.2.4'')])),
              (''/repo/alchemy/specs/b.yaml'',
               DereferenceFailed ''Error resolving $ref pointer''),
              (''/repo/alchemy/specs/c.yaml'',
               Generated ''c.json''
                (JObj [(WARNING_KEY, JStr WARNING_TEXT),
                       (''methods'', JArr [JObj [(''name'', JStr ''alpha'')],
                                            JObj [(''name'', JStr ''Zeta'')]])]))]"
  have red: "reducing (mergeAllOf ?e)" by (rule sample_env_reducing)
  have "map_option files (generateSpecs 4 ?e None) = Some ?fs"
    by code_simp
  then obtain r0 where r0: "generateSpecs 4 ?e None = Some r0" and f0: "files r0 = ?fs"
    by auto
  from C8_failures_are_isolated [OF red, of None ?g "Inr plain_doc"] obtain n where
    n: "\<forall>fuel\<ge>n. \<exists>r r'.
           generateSpecs fuel ?e None = Some r
         \<and> generateSpecs fuel ?e' None = Some r'
         \<and> map fst (files r') = map fst (files r)
         \<and> (\<forall>i<length (files r). fst (files r ! i) \<noteq> ?g \<longrightarrow> files r' ! i = files r ! i)
         \<and> (\<forall>f res. (f, res) \<in> set (files r) \<longrightarrow> (\<exists>out. processFile fuel ?e f = Some (out, res)))
         \<and> filter is_failure (console r) = List.map_filter failure_line (files r)"
    by blast
  let ?vs = "[Generated ''a.json''
                (JObj [(WARNING_KEY, JStr WARNING_TEXT), (''openrpc'', JStr ''1.2.4'')]),
              DereferenceFailed ''Error resolving $ref pointer'',
              Generated ''c.json''
                (JObj [(WARNING_KEY, JStr WARNING_TEXT),
                       (''methods'', JArr [JObj [(''name'', JStr ''alpha'')],
                                            JObj [(''name'', JStr ''Zeta'')]])])]"
  have "\<exists>r r'. generateSpecs fuel ?e None = Some r \<and> generateSpecs fuel ?e' None = Some r'
       \<and> map snd (files r) = ?vs
       \<and> files r' ! 0 = files r ! 0
       \<and> files r' ! 2 = files r ! 2
       \<and> filter is_failure (console r)
           = [FailedToProcess ''b.yaml'' ''Error resolving $ref pointer'']"
    if "fuel \<ge> n" for fuel
  proof -
    from n that obtain r r' where r: "generateSpecs fuel ?e None = Some r"
      and r': "generateSpecs fuel ?e' None = Some r'"
      and same: "\<forall>i<length (files r). fst (files r ! i) \<noteq> ?g \<longrightarrow> files r' ! i = files r ! i"
      and lines: "filter is_failure (console r) = List.map_filter failure_line (files r)"
      by blast
    from generateSpecs_agree [OF r0 r] f0 have fr: "files r = ?fs" by simp
    from same fr have a0: "files r' ! 0 = files r ! 0" and a2: "files r' ! 2 = files r ! 2"
      by (simp_all add: sample_path_def)
    from lines fr have a3: "filter is_failure (console r)
           = [FailedToProcess ''b.yaml'' ''Error resolving $ref pointer'']"
      by (simp add: List.map_filter_simps basename_def is_slash_def)
    from fr have a1: "map snd (files r) = ?vs" by simp
    show ?thesis
      by (intro exI conjI) (rule r, rule r', rule a1, rule a0, rule a2, rule a3)
  qed
  then have "\<exists>n. \<forall>fuel\<ge>n. \<exists>r r'. generateSpecs fuel ?e None = Some r
       \<and> generateSpecs fuel ?e' None = Some r'
       \<and> map snd (files r) = ?vs
       \<and> files r' ! 0 = files r ! 0
       \<and> files r' ! 2 = files r ! 2
       \<and> filter is_failure (console r)
           = [FailedToProcess ''b.yaml'' ''Error resolving $ref pointer'']"
    by blast
  with red show ?thesis by (rule conjI)
qed

subsection \<open>Incremental and full builds\<close>

lemma eligible_nonempty: "eligible D \<Longrightarrow> D \<noteq> []"
  by (auto simp: eligible_def str_endsWith_def)

text \<open>
  C3. Let \<open>D\<close> be a file of the specs directory that a full build processes, and let the
  changed path \<open>p\<close> name it: its base name is \<open>D\<close>, and if it is absolute it is the path of
  \<open>D\<close> in the specs directory. Provided the merge library makes progress, the run on \<open>p\<close> and
  the full build both return, and both hold the same result for \<open>D\<close>: the same output path
  and the same document written, or the same failure. The environment is the same in both
  runs; the comparison is of what each run writes for \<open>D\<close>.
\<close>

theorem C3_incremental_equals_full:
  assumes "reducing (mergeAllOf e)"
    and "mkdirSync e = None"
    and "readdirSync e = Inr names"
    and "D \<in> set names"
    and "eligible D"
    and "existsSync e (join_path (SPECS_DIR e) D)"
    and "basename p = D"
    and "isAbsolute p \<longrightarrow> p = join_path (SPECS_DIR e) D"
  shows "\<exists>n. \<forall>fuel\<ge>n. \<exists>ri rf res.
            generateSpecs fuel e (Some p) = Some ri
          \<and> generateSpecs fuel e None = Some rf
          \<and> map_of (files ri) (join_path (SPECS_DIR e) D) = Some res
          \<and> map_of (files rf) (join_path (SPECS_DIR e) D) = Some res"
proof -
  let ?k = "join_path (SPECS_DIR e) D"
  let ?fs = "map (join_path (SPECS_DIR e)) (filter eligible names)"
  from assms(4,5) have k: "?k \<in> set ?fs" by simp
  from length_pos_if_in_set [OF k] have ne: "length ?fs \<noteq> 0" by linarith
  with assms(3) have full: "\<And>printed. fullBuild e printed
      = SpecFiles (printed @ [GeneratingAll, FoundSpecFiles (length ?fs)]) ?fs"
    by (simp add: fullBuild_def Let_def)
  then have selF: "selectFiles e None = SpecFiles ([] @ [GeneratingAll, FoundSpecFiles (length ?fs)]) ?fs"
    by (simp add: selectFiles_def)
  from assms(5) have "D \<noteq> []" by (rule eligible_nonempty)
  with assms(7) have p: "p \<noteq> []" by (auto simp: basename_def)
  from assms(5,7) have nf: "\<not> str_startsWith (basename p) ''_''"
    by (simp add: eligible_def)
  have "\<exists>out fs. selectFiles e (Some p) = SpecFiles out fs \<and> ?k \<in> set fs"
  proof (cases "str_includes p ''_components''")
    case True
    with p full k show ?thesis by (simp add: selectFiles_def Let_def)
  next
    case False
    from assms(7,8) have "(if isAbsolute p then p else join_path (SPECS_DIR e) (basename p)) = ?k"
      by simp
    with False p nf assms(6) show ?thesis by (simp add: selectFiles_def Let_def)
  qed
  then obtain out fs where selI: "selectFiles e (Some p) = SpecFiles out fs"
    and kI: "?k \<in> set fs" by blast
  from generateSpecs_total [OF assms(1), of "Some p"] obtain n1 where
    n1: "\<forall>m\<ge>n1. generateSpecs m e (Some p) \<noteq> None" by blast
  from generateSpecs_total [OF assms(1), of None] obtain n2 where
    n2: "\<forall>m\<ge>n2. generateSpecs m e None \<noteq> None" by blast
  have "\<exists>ri rf res.
            generateSpecs fuel e (Some p) = Some ri
          \<and> generateSpecs fuel e None = Some rf
          \<and> map_of (files ri) ?k = Some res
          \<and> map_of (files rf) ?k = Some res" if "fuel \<ge> max n1 n2" for fuel
  proof -
    from n1 n2 that obtain ri rf where ri: "generateSpecs fuel e (Some p) = Some ri"
      and rf: "generateSpecs fuel e None = Some rf" by fastforce
    from generateSpecs_lookup [OF assms(2) selI ri kI] obtain log res where
      1: "processFile fuel e ?k = Some (log, res)" and 2: "map_of (files ri) ?k = Some res"
      by blast
    from generateSpecs_lookup [OF assms(2) selF rf k] obtain log' res' where
      3: "processFile fuel e ?k = Some (log', res')" and 4: "map_of (files rf) ?k = Some res'"
      by blast
    from 1 3 have "res' = res" by simp
    with ri rf 2 4 show ?thesis by blast
  qed
  then show ?thesis by blast
qed

theorem C3_witness:
  "\<exists>n. \<forall>fuel\<ge>n. \<exists>ri rf res.
      generateSpecs fuel (sample_env [(''eth.yaml'', Inr eth_doc), (''ok.yaml'', Inr plain_doc)])
        (Some ''alchemy/specs/ok.yaml'') = Some ri
    \<and> generateSpecs fuel (sample_env [(''eth.yaml'', Inr eth_doc), (''ok.yaml'', Inr plain_doc)])
        None = Some rf
    \<and> map_of (files ri) ''/repo/alchemy/specs/ok.yaml'' = Some res
    \<and> map_of (files rf) ''/repo/alchemy/specs/ok.yaml'' = Some res"
proof -
  let ?e = "sample_env [(''eth.yaml'', Inr eth_doc), (''ok.yaml'', Inr plain_doc)]"
  let ?p = "''alchemy/specs/ok.yaml''"
  have 1: "reducing (mergeAllOf ?e)" by (rule sample_env_reducing)
  have 2: "mkdirSync ?e = None" by (simp add: sample_env_def)
  have 3: "readdirSync ?e = Inr [''eth.yaml'', ''ok.yaml'']" by (simp add: sample_env_def)
  have 4: "''ok.yaml'' \<in> set [''eth.yaml'', ''ok.yaml'']" by simp
  have 5: "eligible ''ok.yaml''" by (simp add: eligible_def str_endsWith_def)
  have j: "join_path (SPECS_DIR ?e) ''ok.yaml'' = ''/repo/alchemy/specs/ok.yaml''"
    by (simp add: join_path_def sample_env_def)
  have 6: "existsSync ?e (join_path (SPECS_DIR ?e) ''ok.yaml'')"
    unfolding j by (simp add: sample_env_def sample_path_def)
  have 7: "basename ?p = ''ok.yaml''" by (simp add: basename_def is_slash_def)
  have 8: "isAbsolute ?p \<longrightarrow> ?p = join_path (SPECS_DIR ?e) ''ok.yaml''"
    by (simp add: isAbsolute_def is_slash_def)
  from C3_incremental_equals_full [OF 1 2 3 4 5 6 7 8] show ?thesis
    unfolding j .
qed

subsection \<open>The warning field\<close>

lemma map_of_replace_prop:
  "k \<in> fst ` set kvs \<Longrightarrow>
     map_of (replace_prop kvs k v) k' = (if k' = k then Some v else map_of kvs k')"
proof (induction kvs)
  case Nil
  then show ?case by simp
next
  case (Cons kv kvs)
  show ?case
  proof (cases "fst kv = k")
    case True
    then show ?thesis by simp
  next
    case False
    with Cons.prems have "k \<in> fst ` set kvs" by auto
    from Cons.IH [OF this] False show ?thesis by auto
  qed
qed

lemma map_of_insert_index:
  "fst new \<notin> fst ` set kvs \<Longrightarrow>
     map_of (insert_index new kvs) k' = (if k' = fst new then Some (snd new) else map_of kvs k')"
proof (induction kvs)
  case Nil
  then show ?case by simp
next
  case (Cons kv kvs)
  then have ne: "fst kv \<noteq> fst new" and notin: "fst new \<notin> fst ` set kvs" by auto
  from Cons.IH [OF notin] ne show ?case by auto
qed

lemma map_of_snoc:
  "k \<notin> fst ` set kvs \<Longrightarrow>
     map_of (kvs @ [(k, v)]) k' = (if k' = k then Some v else map_of kvs k')"
proof (induction kvs)
  case Nil
  then show ?case by simp
next
  case (Cons kv kvs)
  then have ne: "fst kv \<noteq> k" and notin: "k \<notin> fst ` set kvs" by auto
  from Cons.IH [OF notin] ne show ?case by auto
qed

lemma map_of_set_prop:
  "map_of (set_prop kvs k v) k' = (if k' = k then Some v else map_of kvs k')"
proof (cases "k \<in> fst ` set kvs")
  case True
  then show ?thesis by (simp add: set_prop_def has_key_iff map_of_replace_prop)
next
  case False
  then have "fst (k, v) \<notin> fst ` set kvs" by simp
  from map_of_insert_index [OF this, of k'] map_of_snoc [OF False, of v k'] False
  show ?thesis by (auto simp: set_prop_def has_key_iff)
qed

lemma map_of_fold_set_prop:
  "distinct (map fst kvs) \<Longrightarrow>
   map_of (foldl (\<lambda>acc kv. set_prop acc (fst kv) (snd kv)) base kvs) k
     = (case map_of kvs k of Some v \<Rightarrow> Some v | None \<Rightarrow> map_of base k)"
proof (induction kvs arbitrary: base)
  case Nil
  then show ?case by simp
next
  case (Cons kv kvs)
  then have notin: "fst kv \<notin> fst ` set kvs" and d: "distinct (map fst kvs)" by auto
  from notin have none: "map_of kvs (fst kv) = None" by (simp add: map_of_eq_None_iff)
  from Cons.IH [OF d, of "set_prop base (fst kv) (snd kv)"] none
  show ?case by (auto simp: map_of_set_prop split: option.splits)
qed

lemma fold_set_prop_append:
  assumes "distinct (map fst kvs)"
    and "fst ` set base \<inter> fst ` set kvs = {}"
    and "\<not> list_ex (\<lambda>kv. is_array_index (fst kv)) kvs"
  shows "foldl (\<lambda>acc kv. set_prop acc (fst kv) (snd kv)) base kvs = base @ kvs"
  using assms
proof (induction kvs arbitrary: base)
  case Nil
  then show ?case by simp
next
  case (Cons kv kvs)
  from Cons.prems have step: "set_prop base (fst kv) (snd kv) = base @ [kv]"
    by (auto simp: set_prop_def has_key_iff)
  from Cons.prems have "fst ` set (base @ [kv]) \<inter> fst ` set kvs = {}" by auto
  with Cons.IH [of "base @ [kv]"] Cons.prems step show ?case by simp
qed

text \<open>
  C5, as the source has it. \<^verbatim>\<open>writeSpec\<close> has no check of the document's keys: it fails only
  when the write throws, with the error of the write. For a document whose keys are
  distinct, the output holds under \<^verbatim>\<open>x-generated-warning\<close> the document's own value when
  the document has that key, and the warning text otherwise; every other key keeps the
  value the document gives it. When the document has neither that key nor an array-index
  key, the output is the warning field followed by the document's fields.
\<close>

theorem C5_marker_is_shadowed_not_rejected:
  assumes "distinct (map fst kvs)"
  shows "writeSpec e name (JObj kvs)
           = (case writeFileSync e (name @ ''.json'') (warned (JObj kvs)) of
                Some msg \<Rightarrow> ([], Inl msg)
              | None \<Rightarrow> ([WrittenTo name], Inr (name @ ''.json'', warned (JObj kvs))))
       \<and> get_prop (warned (JObj kvs)) WARNING_KEY
           = Some (case map_of kvs WARNING_KEY of Some v \<Rightarrow> v | None \<Rightarrow> JStr WARNING_TEXT)
       \<and> (\<forall>k. k \<noteq> WARNING_KEY \<longrightarrow> get_prop (warned (JObj kvs)) k = map_of kvs k)
       \<and> (\<not> has_key kvs WARNING_KEY \<and> \<not> list_ex (\<lambda>kv. is_array_index (fst kv)) kvs
            \<longrightarrow> warned (JObj kvs) = JObj ((WARNING_KEY, JStr WARNING_TEXT) # kvs))"
proof (intro conjI allI impI)
  show "writeSpec e name (JObj kvs)
           = (case writeFileSync e (name @ ''.json'') (warned (JObj kvs)) of
                Some msg \<Rightarrow> ([], Inl msg)
              | None \<Rightarrow> ([WrittenTo name], Inr (name @ ''.json'', warned (JObj kvs))))"
    by (simp add: writeSpec_def Let_def)
  show "get_prop (warned (JObj kvs)) WARNING_KEY
           = Some (case map_of kvs WARNING_KEY of Some v \<Rightarrow> v | None \<Rightarrow> JStr WARNING_TEXT)"
    using map_of_fold_set_prop [OF assms, of "[(WARNING_KEY, JStr WARNING_TEXT)]" WARNING_KEY]
    by (simp add: warned_def spread_into_def split: option.splits)
  show "get_prop (warned (JObj kvs)) k = map_of kvs k" if "k \<noteq> WARNING_KEY" for k
    using that map_of_fold_set_prop [OF assms, of "[(WARNING_KEY, JStr WARNING_TEXT)]" k]
    by (simp add: warned_def spread_into_def split: option.splits)
  show "warned (JObj kvs) = JObj ((WARNING_KEY, JStr WARNING_TEXT) # kvs)"
    if "\<not> has_key kvs WARNING_KEY \<and> \<not> list_ex (\<lambda>kv. is_array_index (fst kv)) kvs"
    using that fold_set_prop_append [OF assms, of "[(WARNING_KEY, JStr WARNING_TEXT)]"]
    by (simp add: warned_def spread_into_def has_key_iff)
qed

text \<open>
  C5 as stated fails: a document that already has the key \<^verbatim>\<open>x-generated-warning\<close> is
  written without any error, and the file holds the document's value under that key, not
  the warning.
\<close>

theorem C5_counterexample:
  "writeSpec (sample_env []) ''marked''
     (JObj [(''openrpc'', JStr ''1.2.4''), (''x-generated-warning'', JStr ''mine'')])
   = ([WrittenTo ''marked''],
      Inr (''marked.json'',
           JObj [(''x-generated-warning'', JStr ''mine''), (''openrpc'', JStr ''1.2.4'')]))"
  by code_simp

theorem C5_witness:
  "get_prop (warned marked_doc) WARNING_KEY = Some (JStr ''mine'')
   \<and> get_prop (warned marked_doc) ''openrpc'' = Some (JStr ''1.2.4'')
   \<and> warned plain_doc = JObj [(WARNING_KEY, JStr WARNING_TEXT), (''openrpc'', JStr ''1.2.4'')]"
proof -
  have d1: "distinct (map fst [(''openrpc'', JStr ''1.2.4''), (''x-generated-warning'', JStr ''mine'')])"
    by simp
  have d2: "distinct (map fst [(''openrpc'', JStr ''1.2.4'')])" by simp
  have i: "\<not> is_array_index ''openrpc''"
    by (simp add: is_array_index_def is_digit_def)
  from C5_marker_is_shadowed_not_rejected [OF d1, of "sample_env []" "''marked''"]
  have "get_prop (warned marked_doc) WARNING_KEY = Some (JStr ''mine'')"
    and "get_prop (warned marked_doc) ''openrpc'' = Some (JStr ''1.2.4'')"
    by (simp_all add: marked_doc_def WARNING_KEY_def)
  moreover from C5_marker_is_shadowed_not_rejected [OF d2, of "sample_env []" "''plain''"] i
  have "warned plain_doc = JObj [(WARNING_KEY, JStr WARNING_TEXT), (''openrpc'', JStr ''1.2.4'')]"
    by (simp add: plain_doc_def has_key_def WARNING_KEY_def)
  ultimately show ?thesis by simp
qed

subsection \<open>The sort\<close>

lemma mset_insort_by: "mset (insort_by cmp x ys) = add_mset x (mset ys)"
  by (induction ys) auto

lemma mset_sort_by: "mset (sort_by cmp xs) = mset xs"
  by (induction xs) (auto simp: sort_by_def mset_insort_by)

lemma set_insort_by: "set (insort_by cmp x ys) = insert x (set ys)"
  by (induction ys) auto

lemma consistent_asym: "consistent cmp \<Longrightarrow> cmp a b < 0 \<Longrightarrow> not_after cmp a b"
  unfolding consistent_def not_after_def by blast

lemma consistent_trans:
  "consistent cmp \<Longrightarrow> not_after cmp a b \<Longrightarrow> not_after cmp b c \<Longrightarrow> not_after cmp a c"
  unfolding consistent_def by blast

lemma consistent_irrefl: "consistent cmp \<Longrightarrow> \<not> cmp a a < 0"
  unfolding consistent_def by blast

lemma sorted_insort_by:
  assumes c: "consistent cmp"
  shows "sorted_wrt (\<lambda>a b. not_after cmp (fst a) (fst b)) ys
    \<Longrightarrow> sorted_wrt (\<lambda>a b. not_after cmp (fst a) (fst b)) (insort_by cmp x ys)"
proof (induction ys)
  case Nil
  then show ?case by simp
next
  case (Cons y ys)
  from Cons.prems have tail: "sorted_wrt (\<lambda>a b. not_after cmp (fst a) (fst b)) ys"
    and head: "\<forall>z\<in>set ys. not_after cmp (fst y) (fst z)" by auto
  show ?case
  proof (cases "cmp (fst y) (fst x) < 0")
    case True
    from consistent_asym [OF c True] head
    have "\<forall>z\<in>set (insort_by cmp x ys). not_after cmp (fst y) (fst z)"
      by (simp add: set_insort_by)
    with Cons.IH [OF tail] True show ?thesis by simp
  next
    case False
    then have xy: "not_after cmp (fst x) (fst y)" by (simp add: not_after_def)
    with head have "\<forall>z\<in>set ys. not_after cmp (fst x) (fst z)"
      using consistent_trans [OF c] by blast
    with xy Cons.prems False show ?thesis by simp
  qed
qed

lemma sorted_sort_by:
  "consistent cmp \<Longrightarrow> sorted_wrt (\<lambda>a b. not_after cmp (fst a) (fst b)) (sort_by cmp xs)"
  by (induction xs) (auto simp: sort_by_def sorted_insort_by)

lemma filter_insort_by:
  assumes "\<not> cmp k k < 0"
  shows "filter (\<lambda>z. fst z = k) (insort_by cmp x ys) = filter (\<lambda>z. fst z = k) (x # ys)"
proof (induction ys)
  case Nil
  then show ?case by simp
next
  case (Cons y ys)
  show ?case
  proof (cases "cmp (fst y) (fst x) < 0")
    case True
    with assms have ne: "\<not> (fst y = k \<and> fst x = k)" by auto
    from True have "filter (\<lambda>z. fst z = k) (insort_by cmp x (y # ys))
        = filter (\<lambda>z. fst z = k) (y # insort_by cmp x ys)" by simp
    also have "\<dots> = filter (\<lambda>z. fst z = k) (y # x # ys)"
      using Cons.IH by simp
    also have "\<dots> = filter (\<lambda>z. fst z = k) (x # y # ys)"
      using ne by auto
    finally show ?thesis .
  next
    case False
    then show ?thesis by simp
  qed
qed

lemma filter_sort_by:
  assumes "\<not> cmp k k < 0"
  shows "filter (\<lambda>z. fst z = k) (sort_by cmp xs) = filter (\<lambda>z. fst z = k) xs"
proof (induction xs)
  case Nil
  then show ?case by (simp add: sort_by_def)
next
  case (Cons x xs)
  have "filter (\<lambda>z. fst z = k) (sort_by cmp (x # xs))
      = filter (\<lambda>z. fst z = k) (x # sort_by cmp xs)"
    using assms filter_insort_by [of cmp k x "sort_by cmp xs"] by (simp add: sort_by_def)
  with Cons.IH show ?case by simp
qed

lemma with_names_Some:
  assumes "with_names ms = Some nms"
  shows "map snd nms = ms" and "\<forall>p\<in>set nms. name_of (snd p) = Some (fst p)"
proof -
  from assms have "list_all2 (\<lambda>m p. map_option (\<lambda>n. (n, m)) (name_of m) = Some p) ms nms"
    by (simp add: with_names_def those_map_Some)
  then have "map snd nms = ms \<and> (\<forall>p\<in>set nms. name_of (snd p) = Some (fst p))"
    by (induction ms nms rule: list_all2_induct) auto
  then show "map snd nms = ms" and "\<forall>p\<in>set nms. name_of (snd p) = Some (fst p)" by auto
qed

lemma names_of_named:
  "\<forall>p\<in>set ps. name_of (snd p) = Some (fst p) \<Longrightarrow> names_of (map snd ps) = map fst ps"
  by (induction ps) (auto simp: names_of_def List.map_filter_simps)

lemma filter_named:
  "\<forall>p\<in>set ps. name_of (snd p) = Some (fst p) \<Longrightarrow>
     filter (\<lambda>m. name_of m = Some k) (map snd ps) = map snd (filter (\<lambda>z. fst z = k) ps)"
proof (induction ps)
  case Nil
  then show ?case by simp
next
  case (Cons p ps)
  then have p: "name_of (snd p) = Some (fst p)"
    and IH: "filter (\<lambda>m. name_of m = Some k) (map snd ps) = map snd (filter (\<lambda>z. fst z = k) ps)"
    by simp_all
  show ?case
  proof (cases "fst p = k")
    case True
    with p IH show ?thesis by simp
  next
    case False
    with p IH show ?thesis by simp
  qed
qed

lemma sortMethods_named:
  assumes c: "consistent (localeCompare e)" and n: "with_names ms = Some nms"
  shows "\<exists>arranged. sortMethods e ms = Inr arranged
       \<and> mset arranged = mset ms
       \<and> sorted_wrt (not_after (localeCompare e)) (names_of arranged)
       \<and> (\<forall>k. filter (\<lambda>m. name_of m = Some k) arranged = filter (\<lambda>m. name_of m = Some k) ms)"
proof (cases "length ms \<le> 1")
  case True
  then have "length (names_of ms) \<le> 1"
    by (cases ms) (auto simp: names_of_def List.map_filter_simps split: option.splits)
  then have "sorted_wrt (not_after (localeCompare e)) (names_of ms)"
    by (cases "names_of ms") auto
  with True show ?thesis by (simp add: sortMethods_def)
next
  case False
  let ?ps = "sort_by (localeCompare e) nms"
  note nm = with_names_Some [OF n]
  have "set ?ps = set nms" using mset_sort_by [of "localeCompare e" nms] by (metis set_mset_mset)
  with nm(2) have inv: "\<forall>p\<in>set ?ps. name_of (snd p) = Some (fst p)" by simp
  have 1: "sortMethods e ms = Inr (map snd ?ps)"
    using False n by (simp add: sortMethods_def)
  have 2: "mset (map snd ?ps) = mset ms"
    using mset_sort_by [of "localeCompare e" nms] nm(1) by (metis mset_map)
  have 3: "sorted_wrt (not_after (localeCompare e)) (names_of (map snd ?ps))"
    using sorted_sort_by [OF c, of nms] by (simp add: names_of_named [OF inv] sorted_wrt_map)
  have 4: "filter (\<lambda>m. name_of m = Some k) (map snd ?ps) = filter (\<lambda>m. name_of m = Some k) ms" for k
  proof -
    have "filter (\<lambda>m. name_of m = Some k) (map snd ?ps) = map snd (filter (\<lambda>z. fst z = k) ?ps)"
      by (rule filter_named [OF inv])
    also have "\<dots> = map snd (filter (\<lambda>z. fst z = k) nms)"
      using consistent_irrefl [OF c, of k] filter_sort_by [of "localeCompare e" k nms] by simp
    also have "\<dots> = filter (\<lambda>m. name_of m = Some k) (map snd nms)"
      by (rule filter_named [OF nm(2), symmetric])
    finally show ?thesis by (simp add: nm(1))
  qed
  show ?thesis
    by (intro exI conjI allI) (rule 1, rule 2, rule 3, rule 4)
qed

lemma map_of_delete_prop: "k' \<noteq> k \<Longrightarrow> map_of (delete_prop kvs k) k' = map_of kvs k'"
  by (induction kvs) (auto simp: delete_prop_def)

text \<open>
  C6, as the source has it. The comparator is \<^verbatim>\<open>a.name.localeCompare(b.name)\<close>: the order is
  the collation order of the host's locale, not the order of the code units. For a consistent
  collation and a top-level \<^verbatim>\<open>methods\<close> array whose entries all have a string \<^verbatim>\<open>name\<close>, the
  methods of the result are an arrangement of the given ones, their names are in collation
  order, and entries of the same name keep their order.
\<close>

theorem C6_methods_sorted_by_collation:
  assumes "consistent (localeCompare e)"
    and "map_of kvs ''methods'' = Some (JArr ms)"
    and "with_names ms = Some nms"
  shows "\<exists>arranged kvs'. finishSpec e (JObj kvs) = Inr (JObj kvs')
       \<and> map_of kvs' ''methods'' = Some (JArr arranged)
       \<and> mset arranged = mset ms
       \<and> sorted_wrt (not_after (localeCompare e)) (names_of arranged)
       \<and> (\<forall>k. filter (\<lambda>m. name_of m = Some k) arranged = filter (\<lambda>m. name_of m = Some k) ms)"
proof -
  let ?kept = "if truthy_prop (JObj kvs) ''components'' then delete_prop kvs ''components'' else kvs"
  from assms(2) have m: "map_of ?kept ''methods'' = Some (JArr ms)"
    by (simp add: map_of_delete_prop)
  from sortMethods_named [OF assms(1,3)] obtain arranged where
    s: "sortMethods e ms = Inr arranged" and p: "mset arranged = mset ms"
    and o: "sorted_wrt (not_after (localeCompare e)) (names_of arranged)"
    and st: "\<forall>k. filter (\<lambda>m. name_of m = Some k) arranged = filter (\<lambda>m. name_of m = Some k) ms"
    by blast
  from m s have f: "finishSpec e (JObj kvs) = Inr (JObj (set_prop ?kept ''methods'' (JArr arranged)))"
    by (simp add: finishSpec_def Let_def)
  have g: "map_of (set_prop ?kept ''methods'' (JArr arranged)) ''methods'' = Some (JArr arranged)"
    by (simp add: map_of_set_prop)
  show ?thesis
    by (intro exI conjI) (rule f, rule g, rule p, rule o, rule st)
qed

lemma two_key_compare:
  fixes x y :: "'a::linorder" and u v :: "'b::linorder"
  shows "(if x < y then - 1 else if y < x then 1
          else if u < v then - 1 else if v < u then 1 else (0::int)) < 0
         \<longleftrightarrow> x < y \<or> (x = y \<and> u < v)"
proof (cases "x < y")
  case True
  then show ?thesis by simp
next
  case False
  show ?thesis
  proof (cases "y < x")
    case True
    with False show ?thesis by auto
  next
    case nlt: False
    with False have "x = y" by simp
    then show ?thesis by simp
  qed
qed

lemma letters_compare_neg:
  "letters_compare a b < 0 \<longleftrightarrow>
     map to_lower a < map to_lower b
     \<or> (map to_lower a = map to_lower b \<and> map is_upper a < map is_upper b)"
  unfolding letters_compare_def Let_def by (rule two_key_compare)

lemma two_key_trans:
  fixes x y z :: "'a::linorder" and u v w :: "'b::linorder"
  assumes "\<not> (y < x \<or> (y = x \<and> v < u))" and "\<not> (z < y \<or> (z = y \<and> w < v))"
  shows "\<not> (z < x \<or> (z = x \<and> w < u))"
proof -
  from assms(1) have xy: "x \<le> y" and uv: "x = y \<longrightarrow> u \<le> v"
    by (simp_all add: not_less)
  from assms(2) have yz: "y \<le> z" and vw: "y = z \<longrightarrow> v \<le> w"
    by (simp_all add: not_less)
  from xy yz have xz: "x \<le> z" by (rule order_trans)
  have "u \<le> w" if "z = x"
  proof -
    from that xy yz have "x = y" and "y = z" by simp_all
    with uv vw show ?thesis by simp
  qed
  with xz show ?thesis by (auto simp: not_less)
qed

lemma letters_compare_consistent: "consistent letters_compare"
proof -
  have asym: "\<not> letters_compare b a < 0" if "letters_compare a b < 0" for a b
  proof -
    from that have "map to_lower a < map to_lower b
     \<or> (map to_lower a = map to_lower b \<and> map is_upper a < map is_upper b)"
      unfolding letters_compare_neg .
    then have "\<not> (map to_lower b < map to_lower a
     \<or> (map to_lower b = map to_lower a \<and> map is_upper b < map is_upper a))"
      using less_asym by fastforce
    then show ?thesis unfolding letters_compare_neg .
  qed
  have trans: "not_after letters_compare a c"
    if "not_after letters_compare a b" and "not_after letters_compare b c" for a b c
    using that unfolding not_after_def letters_compare_neg by (rule two_key_trans)
  show ?thesis unfolding consistent_def using asym trans by blast
qed

text \<open>
  C6 as stated fails: the order is not the ordinary order of strings. In the collation of
  letters, \<^verbatim>\<open>alpha\<close> comes before \<^verbatim>\<open>Zeta\<close>, and that is the order of the result; in the order
  of the code units, \<^verbatim>\<open>Zeta\<close> comes first.
\<close>

theorem C6_counterexample:
  "finishSpec (sample_env [])
     (JObj [(''methods'', JArr [JObj [(''name'', JStr ''Zeta'')],
                                 JObj [(''name'', JStr ''alpha'')]])])
     = Inr (JObj [(''methods'', JArr [JObj [(''name'', JStr ''alpha'')],
                                       JObj [(''name'', JStr ''Zeta'')]])])
   \<and> \<not> ''alpha'' \<le> ''Zeta''
   \<and> \<not> sorted (names_of [JObj [(''name'', JStr ''alpha'')], JObj [(''name'', JStr ''Zeta'')]])"
  by code_simp

theorem C6_witness:
  "consistent (localeCompare (sample_env []))
   \<and> finishSpec (sample_env []) eth_doc
       = Inr (JObj [(''openrpc'', JStr ''1.2.4''),
            (''methods'',
              JArr [JObj [(''name'', JStr ''alpha''),
                          (''result'', JObj [(''allOf'',
                             JArr [JObj [(''type'', JStr ''string'')],
                                   JObj [(''pattern'', JStr ''^0x'')]])])],
                    JObj [(''name'', JStr ''alpha''), (''summary'', JStr ''second'')],
                    JObj [(''name'', JStr ''zeta''), (''params'', JArr [])]])])
   \<and> (\<exists>arranged kvs'. finishSpec (sample_env []) eth_doc = Inr (JObj kvs')
         \<and> map_of kvs' ''methods'' = Some (JArr arranged)
         \<and> sorted_wrt (not_after letters_compare) (names_of arranged)
         \<and> filter (\<lambda>m. name_of m = Some ''alpha'') arranged
             = [JObj [(''name'', JStr ''alpha''),
                      (''result'', JObj [(''allOf'',
                         JArr [JObj [(''type'', JStr ''string'')],
                               JObj [(''pattern'', JStr ''^0x'')]])])],
                JObj [(''name'', JStr ''alpha''), (''summary'', JStr ''second'')]])"
proof -
  let ?e = "sample_env []"
  let ?ms = "[JObj [(''name'', JStr ''zeta''), (''params'', JArr [])],
              JObj [(''name'', JStr ''alpha''),
                    (''result'', JObj [(''allOf'',
                       JArr [JObj [(''type'', JStr ''string'')],
                             JObj [(''pattern'', JStr ''^0x'')]])])],
              JObj [(''name'', JStr ''alpha''), (''summary'', JStr ''second'')]]"
  let ?kvs = "[(''openrpc'', JStr ''1.2.4''), (''methods'', JArr ?ms),
               (''components'', JObj [(''schemas'', JObj [])])]"
  have lc: "localeCompare ?e = letters_compare" by (simp add: sample_env_def)
  have 1: "consistent (localeCompare ?e)" by (simp add: lc letters_compare_consistent)
  have 2: "map_of ?kvs ''methods'' = Some (JArr ?ms)" by simp
  have 3: "with_names ?ms = Some (zip [''zeta'', ''alpha'', ''alpha''] ?ms)"
    by (simp add: with_names_def)
  have doc: "eth_doc = JObj ?kvs" by (simp add: eth_doc_def)
  from C6_methods_sorted_by_collation [OF 1 2 3] obtain arranged kvs' where
    f: "finishSpec ?e (JObj ?kvs) = Inr (JObj kvs')"
    and m: "map_of kvs' ''methods'' = Some (JArr arranged)"
    and o: "sorted_wrt (not_after (localeCompare ?e)) (names_of arranged)"
    and st: "\<forall>k. filter (\<lambda>m. name_of m = Some k) arranged = filter (\<lambda>m. name_of m = Some k) ?ms"
    by blast
  from st have st': "filter (\<lambda>m. name_of m = Some ''alpha'') arranged
             = [JObj [(''name'', JStr ''alpha''),
                      (''result'', JObj [(''allOf'',
                         JArr [JObj [(''type'', JStr ''string'')],
                               JObj [(''pattern'', JStr ''^0x'')]])])],
                JObj [(''name'', JStr ''alpha''), (''summary'', JStr ''second'')]]"
    by simp
  have ex: "\<exists>arranged kvs'. finishSpec ?e eth_doc = Inr (JObj kvs')
         \<and> map_of kvs' ''methods'' = Some (JArr arranged)
         \<and> sorted_wrt (not_after letters_compare) (names_of arranged)
         \<and> filter (\<lambda>m. name_of m = Some ''alpha'') arranged
             = [JObj [(''name'', JStr ''alpha''),
                      (''result'', JObj [(''allOf'',
                         JArr [JObj [(''type'', JStr ''string'')],
                               JObj [(''pattern'', JStr ''^0x'')]])])],
                JObj [(''name'', JStr ''alpha''), (''summary'', JStr ''second'')]]"
    unfolding doc
    by (intro exI conjI) (rule f, rule m, rule o [unfolded lc], rule st')
  have run: "finishSpec ?e eth_doc
       = Inr (JObj [(''openrpc'', JStr ''1.2.4''),
            (''methods'',
              JArr [JObj [(''name'', JStr ''alpha''),
                          (''result'', JObj [(''allOf'',
                             JArr [JObj [(''type'', JStr ''string'')],
                                   JObj [(''pattern'', JStr ''^0x'')]])])],
                    JObj [(''name'', JStr ''alpha''), (''summary'', JStr ''second'')],
                    JObj [(''name'', JStr ''zeta''), (''params'', JArr [])]])])"
    by code_simp
  from 1 run ex show ?thesis by (intro conjI)
qed

subsection \<open>Compositions left in the output\<close>

lemma falsy_unchanged:
  "\<not> truthy v \<Longrightarrow> mergeAllOfSchemas n M v = Some r \<Longrightarrow> r = ([], v)"
  by (cases n; cases v) auto

lemma map_of_merged_values:
  "list_all2 (\<lambda>kv r. mergeAllOfSchemas n M (snd kv) = Some r) kvs rs \<Longrightarrow>
   map_of (zip (map fst kvs) (map snd rs)) k
     = (case map_of kvs k of None \<Rightarrow> None
        | Some v \<Rightarrow> map_option snd (mergeAllOfSchemas n M v))"
  by (induction kvs rs rule: list_all2_induct) auto

lemma concat_eq_Nil_fst:
  "concat (map fst rs) = [] \<Longrightarrow> r \<in> set rs \<Longrightarrow> fst r = []"
  by (induction rs) auto

lemma mergeAllOfSchemas_clean:
  "mergeAllOfSchemas n M d = Some ([], r) \<Longrightarrow> allOf_count r = 0"
proof (induction n arbitrary: d r)
  case 0
  then show ?case by simp
next
  case (Suc n)
  show ?case
  proof (cases d)
    case (JArr xs)
    with Suc.prems obtain rs where
      rs: "list_all2 (\<lambda>x y. mergeAllOfSchemas n M x = Some y) xs rs"
      and w: "concat (map fst rs) = []" and r: "r = JArr (map snd rs)"
      by (auto simp: those_map_Some split: option.splits)
    have "allOf_count (snd y) = 0" if "y \<in> set rs" for y
    proof -
      from that obtain i where i: "i < length rs" and y: "y = rs ! i"
        by (auto simp: in_set_conv_nth)
      from rs i have "i < length xs" by (simp add: list_all2_lengthD)
      from list_all2_nthD [OF rs this] y have "mergeAllOfSchemas n M (xs ! i) = Some y" by simp
      moreover from concat_eq_Nil_fst [OF w that] have "y = ([], snd y)"
        by (cases y) simp
      ultimately have "mergeAllOfSchemas n M (xs ! i) = Some ([], snd y)" by simp
      then show ?thesis by (rule Suc.IH)
    qed
    with r show ?thesis by simp
  next
    case (JObj kvs)
    show ?thesis
    proof (cases "truthy_prop (JObj kvs) ''allOf''")
      case True
      show ?thesis
      proof (cases "M (JObj kvs)")
        case (Inl msg)
        with True JObj Suc.prems show ?thesis by simp
      next
        case (Inr merged)
        with True JObj Suc.prems have "mergeAllOfSchemas n M merged = Some ([], r)" by simp
        then show ?thesis by (rule Suc.IH)
      qed
    next
      case False
      with JObj Suc.prems obtain rs where
        rs: "list_all2 (\<lambda>kv y. mergeAllOfSchemas n M (snd kv) = Some y) kvs rs"
        and w: "concat (map fst rs) = []"
        and r: "r = JObj (assigned (zip (map fst kvs) (map snd rs)))"
        by (auto simp: those_map_Some split: option.splits)
      have vals: "allOf_count (snd y) = 0" if "y \<in> set rs" for y
      proof -
        from that obtain i where i: "i < length rs" and y: "y = rs ! i"
          by (auto simp: in_set_conv_nth)
        from rs i have "i < length kvs" by (simp add: list_all2_lengthD)
        from list_all2_nthD [OF rs this] y
        have "mergeAllOfSchemas n M (snd (kvs ! i)) = Some y" by simp
        moreover from concat_eq_Nil_fst [OF w that] have "y = ([], snd y)"
          by (cases y) simp
        ultimately have "mergeAllOfSchemas n M (snd (kvs ! i)) = Some ([], snd y)" by simp
        then show ?thesis by (rule Suc.IH)
      qed
      have "sum_list (map (\<lambda>kv. allOf_count (snd kv)) (assigned (zip (map fst kvs) (map snd rs))))
          \<le> sum_list (map (\<lambda>kv. allOf_count (snd kv)) (zip (map fst kvs) (map snd rs)))"
        by (rule count_assigned_le)
      also have "\<dots> \<le> sum_list (map allOf_count (map snd rs))"
        by (rule count_zip_le)
      also have "\<dots> = 0" using vals by simp
      finally have sum0:
        "sum_list (map (\<lambda>kv. allOf_count (snd kv)) (assigned (zip (map fst kvs) (map snd rs)))) = 0"
        by simp
      have own: "map_of (assigned (zip (map fst kvs) (map snd rs))) ''allOf''
          = map_of (zip (map fst kvs) (map snd rs)) ''allOf''"
        by (rule map_of_assigned) simp
      have "\<not> truthy_prop (JObj (zip (map fst kvs) (map snd rs))) ''allOf''"
      proof (cases "map_of kvs ''allOf''")
        case None
        with map_of_merged_values [OF rs, of "''allOf''"] show ?thesis
          by (simp add: truthy_prop_def)
      next
        case (Some v)
        with False have nv: "\<not> truthy v" by (simp add: truthy_prop_def)
        show ?thesis
        proof (cases "mergeAllOfSchemas n M v")
          case None
          with Some map_of_merged_values [OF rs, of "''allOf''"] show ?thesis
            by (simp add: truthy_prop_def)
        next
          case (Some y)
          from falsy_unchanged [OF nv this] have "snd y = v" by simp
          with Some \<open>map_of kvs ''allOf'' = Some v\<close> nv
            map_of_merged_values [OF rs, of "''allOf''"]
          show ?thesis by (simp add: truthy_prop_def)
        qed
      qed
      with own have flag: "\<not> truthy_prop (JObj (assigned (zip (map fst kvs) (map snd rs)))) ''allOf''"
        by (simp add: truthy_prop_def)
      from r flag sum0 show ?thesis by (simp del: sum_list_eq_0_iff)
    qed
  qed (use Suc.prems in auto)
qed

lemma mergeAllOfSchemas_well_formed:
  assumes M: "\<forall>obj merged. well_formed obj \<longrightarrow> M obj = Inr merged \<longrightarrow> well_formed merged"
  shows "well_formed d \<Longrightarrow> mergeAllOfSchemas n M d = Some (ws, r) \<Longrightarrow> well_formed r"
proof (induction n arbitrary: d ws r)
  case 0
  then show ?case by simp
next
  case (Suc n)
  show ?case
  proof (cases d)
    case (JArr xs)
    with Suc.prems(2) obtain rs where
      rs: "list_all2 (\<lambda>x y. mergeAllOfSchemas n M x = Some y) xs rs"
      and r: "r = JArr (map snd rs)"
      by (auto simp: those_map_Some split: option.splits)
    have "well_formed (snd y)" if "y \<in> set rs" for y
    proof -
      from that obtain i where i: "i < length rs" and y: "y = rs ! i"
        by (auto simp: in_set_conv_nth)
      from rs i have i': "i < length xs" by (simp add: list_all2_lengthD)
      from list_all2_nthD [OF rs i'] y
      have "mergeAllOfSchemas n M (xs ! i) = Some (fst y, snd y)" by simp
      moreover from Suc.prems(1) JArr i' have "well_formed (xs ! i)"
        by (simp add: list_all_length)
      ultimately show ?thesis by (rule Suc.IH [rotated])
    qed
    with r show ?thesis by (simp add: list_all_iff)
  next
    case (JObj kvs)
    show ?thesis
    proof (cases "truthy_prop (JObj kvs) ''allOf''")
      case True
      show ?thesis
      proof (cases "M (JObj kvs)")
        case (Inl msg)
        with True JObj Suc.prems(2) have "r = d" by simp
        with Suc.prems(1) show ?thesis by simp
      next
        case (Inr merged)
        with True JObj Suc.prems(2) have run: "mergeAllOfSchemas n M merged = Some (ws, r)"
          by simp
        from M Inr Suc.prems(1) JObj have "well_formed merged" by blast
        from Suc.IH [OF this run] show ?thesis .
      qed
    next
      case False
      with JObj Suc.prems(2) obtain rs where
        rs: "list_all2 (\<lambda>kv y. mergeAllOfSchemas n M (snd kv) = Some y) kvs rs"
        and r: "r = JObj (assigned (zip (map fst kvs) (map snd rs)))"
        by (auto simp: those_map_Some split: option.splits)
      from rs have len: "length rs = length kvs" by (simp add: list_all2_lengthD)
      have vals: "well_formed (snd y)" if "y \<in> set rs" for y
      proof -
        from that obtain i where i: "i < length rs" and y: "y = rs ! i"
          by (auto simp: in_set_conv_nth)
        from len i have i': "i < length kvs" by simp
        from list_all2_nthD [OF rs i'] y
        have "mergeAllOfSchemas n M (snd (kvs ! i)) = Some (fst y, snd y)" by simp
        moreover from Suc.prems(1) JObj i' have "well_formed (snd (kvs ! i))"
          by (simp add: list_all_length)
        ultimately show ?thesis by (rule Suc.IH [rotated])
      qed
      have "well_formed (snd kv)" if "kv \<in> set (assigned (zip (map fst kvs) (map snd rs)))" for kv
      proof -
        from that set_assigned have "kv \<in> set (zip (map fst kvs) (map snd rs))"
          by (rule set_rev_mp)
        then have "snd kv \<in> set (map snd rs)" by (metis in_set_zipE prod.collapse)
        with vals show ?thesis by auto
      qed
      moreover from Suc.prems(1) JObj len have "distinct (map fst (zip (map fst kvs) (map snd rs)))"
        by simp
      then have "distinct (map fst (assigned (zip (map fst kvs) (map snd rs))))"
        by (rule distinct_assigned)
      ultimately show ?thesis using r by (simp add: list_all_iff)
    qed
  qed (use Suc.prems in auto)
qed

lemma sortMethods_mset:
  assumes "permuting (engineSort e)" and "sortMethods e ms = Inr arranged"
  shows "mset arranged = mset ms"
proof (cases "length ms \<le> 1")
  case True
  with assms(2) show ?thesis by (simp add: sortMethods_def)
next
  case False
  show ?thesis
  proof (cases "with_names ms")
    case None
    with False assms(2) have "engineSort e ms = Inr arranged" by (simp add: sortMethods_def)
    with assms(1) show ?thesis unfolding permuting_def by blast
  next
    case (Some nms)
    with False assms(2) have a: "arranged = map snd (sort_by (localeCompare e) nms)"
      by (simp add: sortMethods_def)
    from with_names_Some(1) [OF Some] mset_sort_by [of "localeCompare e" nms]
    show ?thesis unfolding a by (metis mset_map)
  qed
qed

lemma count_mset: "mset xs = mset ys \<Longrightarrow> sum_list (map allOf_count xs) = sum_list (map allOf_count ys)"
  by (metis mset_map sum_mset_sum_list)

lemma replace_prop_keys: "map fst (replace_prop kvs k v) = map fst kvs"
  by (induction kvs) auto

lemma replace_prop_values: "snd ` set (replace_prop kvs k v) \<subseteq> insert v (snd ` set kvs)"
  by (induction kvs) auto

lemma insert_index_distinct:
  "distinct (map fst kvs) \<Longrightarrow> fst new \<notin> fst ` set kvs \<Longrightarrow> distinct (map fst (insert_index new kvs))"
proof (induction kvs)
  case Nil
  then show ?case by simp
next
  case (Cons kv kvs)
  then have IH: "distinct (map fst (insert_index new kvs))" by simp
  from Cons.prems have "fst kv \<notin> fst ` set (insert_index new kvs)"
    by (auto simp: keys_insert_index)
  with IH Cons.prems show ?case by auto
qed

lemma insert_index_values: "snd ` set (insert_index new kvs) = insert (snd new) (snd ` set kvs)"
  by (induction kvs) auto

lemma set_prop_distinct: "distinct (map fst kvs) \<Longrightarrow> distinct (map fst (set_prop kvs k v))"
  by (auto simp: set_prop_def has_key_iff replace_prop_keys insert_index_distinct)

lemma set_prop_values: "snd ` set (set_prop kvs k v) \<subseteq> insert v (snd ` set kvs)"
  using replace_prop_values [of kvs k v]
  by (auto simp: set_prop_def insert_index_values)

lemma set_prop_well_formed:
  assumes "well_formed (JObj kvs)" and "well_formed v"
  shows "well_formed (JObj (set_prop kvs k v))"
proof -
  from assms(1) have "distinct (map fst (set_prop kvs k v))" by (simp add: set_prop_distinct)
  moreover have "well_formed x" if "x \<in> snd ` set (set_prop kvs k v)" for x
  proof -
    from that set_prop_values [of kvs k v] have "x = v \<or> x \<in> snd ` set kvs" by blast
    with assms show ?thesis by (auto simp: list_all_iff)
  qed
  ultimately show ?thesis by (auto simp: list_all_iff)
qed

lemma delete_prop_well_formed: "well_formed (JObj kvs) \<Longrightarrow> well_formed (JObj (delete_prop kvs k))"
  by (auto simp: delete_prop_def list_all_iff distinct_map_filter)

lemma well_formed_mset:
  "mset xs = mset ys \<Longrightarrow> list_all well_formed ys \<Longrightarrow> list_all well_formed xs"
  by (metis list_all_iff set_mset_mset)

lemma finishSpec_well_formed:
  assumes "permuting (engineSort e)" and "well_formed merged" and "finishSpec e merged = Inr spec"
  shows "well_formed spec"
proof (cases merged)
  case (JObj kvs)
  let ?kept = "if truthy_prop (JObj kvs) ''components'' then delete_prop kvs ''components'' else kvs"
  from assms(2) JObj have kept: "well_formed (JObj ?kept)"
    by (simp add: delete_prop_well_formed del: well_formed.simps)
  show ?thesis
  proof (cases "\<exists>ms. map_of ?kept ''methods'' = Some (JArr ms)")
    case True
    then obtain ms where ms: "map_of ?kept ''methods'' = Some (JArr ms)" by blast
    with assms(3) JObj obtain arranged where s: "sortMethods e ms = Inr arranged"
      and spec: "spec = JObj (set_prop ?kept ''methods'' (JArr arranged))"
      by (auto simp: finishSpec_def Let_def split: sum.splits)
    from ms have "(''methods'', JArr ms) \<in> set ?kept" by (rule map_of_SomeD)
    with kept have "list_all well_formed ms" by (auto simp: list_all_iff)
    with sortMethods_mset [OF assms(1) s] have "well_formed (JArr arranged)"
      by (simp add: well_formed_mset)
    from set_prop_well_formed [OF kept this] spec show ?thesis by simp
  next
    case False
    with assms(3) JObj have "spec = JObj ?kept"
      by (auto simp: finishSpec_def Let_def split: option.splits json.splits)
    with kept show ?thesis by simp
  qed
qed (use assms in \<open>auto simp: finishSpec_def\<close>)

lemma finishSpec_clean:
  assumes "permuting (engineSort e)" and "allOf_count merged = 0" and "finishSpec e merged = Inr spec"
  shows "allOf_count spec = 0"
proof (cases merged)
  case (JObj kvs)
  let ?kept = "if truthy_prop (JObj kvs) ''components'' then delete_prop kvs ''components'' else kvs"
  have flag: "truthy_prop (JObj ?kept) ''allOf'' = truthy_prop (JObj kvs) ''allOf''"
    by (simp add: truthy_prop_def map_of_delete_prop)
  have "sum_list (map (\<lambda>kv. allOf_count (snd kv)) (delete_prop kvs ''components''))
      \<le> sum_list (map (\<lambda>kv. allOf_count (snd kv)) kvs)"
    by (induction kvs) (auto simp: delete_prop_def)
  moreover from assms(2) JObj have "\<not> truthy_prop (JObj kvs) ''allOf''"
    and "sum_list (map (\<lambda>kv. allOf_count (snd kv)) kvs) = 0"
    by (simp_all del: sum_list_eq_0_iff split: if_splits)
  ultimately have kept: "allOf_count (JObj ?kept) = 0"
    using flag by (simp del: sum_list_eq_0_iff)
  show ?thesis
  proof (cases "\<exists>ms. map_of ?kept ''methods'' = Some (JArr ms)")
    case True
    then obtain ms where ms: "map_of ?kept ''methods'' = Some (JArr ms)" by blast
    with assms(3) JObj obtain arranged where s: "sortMethods e ms = Inr arranged"
      and spec: "spec = JObj (set_prop ?kept ''methods'' (JArr arranged))"
      by (auto simp: finishSpec_def Let_def split: sum.splits)
    from ms have "(''methods'', JArr ms) \<in> set ?kept" by (rule map_of_SomeD)
    from allOf_count_value [OF this] kept have "allOf_count (JArr ms) = 0"
      by (simp del: sum_list_eq_0_iff split: if_splits)
    with count_mset [OF sortMethods_mset [OF assms(1) s]] have "allOf_count (JArr arranged) = 0"
      by simp
    with count_set_prop [of ?kept "''methods''" "JArr arranged"] kept
    have "sum_list (map (\<lambda>kv. allOf_count (snd kv)) (set_prop ?kept ''methods'' (JArr arranged))) = 0"
      by (simp del: sum_list_eq_0_iff split: if_splits)
    moreover from kept have "\<not> truthy_prop (JObj (set_prop ?kept ''methods'' (JArr arranged))) ''allOf''"
      by (simp add: truthy_prop_def map_of_set_prop del: sum_list_eq_0_iff split: if_splits)
    ultimately show ?thesis using spec by (simp del: sum_list_eq_0_iff)
  next
    case False
    with assms(3) JObj have "spec = JObj ?kept"
      by (auto simp: finishSpec_def Let_def split: option.splits json.splits)
    with kept show ?thesis by simp
  qed
qed (use assms in \<open>auto simp: finishSpec_def\<close>)

lemma show_nat_last: "last (show_nat n) \<in> set ''0123456789''"
proof -
  have "last (show_nat n) = ''0123456789'' ! (n mod 10)"
    by (subst show_nat.simps) simp
  moreover have "n mod 10 < length ''0123456789''" by simp
  ultimately show ?thesis by (metis nth_mem)
qed

lemma show_nat_not_allOf: "show_nat n \<noteq> ''allOf''"
proof
  assume "show_nat n = ''allOf''"
  then have "last (show_nat n) = CHR ''f''" by simp
  with show_nat_last [of n] show False by simp
qed

lemma own_entries_index_keys:
  "''allOf'' \<notin> fst ` set (zip (map show_nat [0..<n]) vs)"
proof
  assume "''allOf'' \<in> fst ` set (zip (map show_nat [0..<n]) vs)"
  then obtain v where "(''allOf'', v) \<in> set (zip (map show_nat [0..<n]) vs)" by auto
  then have "''allOf'' \<in> set (map show_nat [0..<n])" by (rule set_zip_leftD)
  then obtain i where "show_nat i = ''allOf''" by auto
  with show_nat_not_allOf [of i] show False by simp
qed

lemma warned_clean:
  assumes "allOf_count spec = 0" and "well_formed spec"
  shows "allOf_count (warned spec) = 0"
proof -
  let ?base = "[(WARNING_KEY, JStr WARNING_TEXT)]"
  let ?out = "spread_into ?base spec"
  from count_spread_into [of ?base spec] assms(1)
  have sum0: "sum_list (map (\<lambda>kv. allOf_count (snd kv)) ?out) = 0" by simp
  have "map_of ?out ''allOf'' = None \<or> (\<exists>v. map_of ?out ''allOf'' = Some v \<and> \<not> truthy v)"
  proof (cases spec)
    case (JObj kvs)
    with assms(2) have d: "distinct (map fst kvs)" by simp
    from assms(1) JObj have nt: "\<not> truthy_prop (JObj kvs) ''allOf''"
      by (simp split: if_splits)
    from map_of_fold_set_prop [OF d, of ?base "''allOf''"] JObj
    have "map_of ?out ''allOf'' = map_of kvs ''allOf''"
      by (simp add: spread_into_def WARNING_KEY_def split: option.splits)
    with nt show ?thesis by (auto simp: truthy_prop_def split: option.splits)
  next
    case (JArr xs)
    have "''allOf'' \<notin> fst ` set ?out"
      using own_entries_index_keys [of "length xs" xs] JArr
      by (simp add: keys_spread_into WARNING_KEY_def)
    then show ?thesis by (simp add: map_of_eq_None_iff)
  next
    case (JStr s)
    have "''allOf'' \<notin> fst ` set ?out"
      using own_entries_index_keys [of "length s" "map (\<lambda>c. JStr [c]) s"] JStr
      by (simp add: keys_spread_into WARNING_KEY_def)
    then show ?thesis by (simp add: map_of_eq_None_iff)
  qed (simp_all add: spread_into_def WARNING_KEY_def)
  then have "\<not> truthy_prop (JObj ?out) ''allOf''"
    by (auto simp: truthy_prop_def)
  with sum0 show ?thesis by (simp add: warned_def del: sum_list_eq_0_iff)
qed

text \<open>
  C4, as the source has it. Let the environment return JavaScript values. If a file is
  generated and no \<^verbatim>\<open>Could not merge allOf\<close> warning was printed for it, then no object of
  the document written has a truthy \<^verbatim>\<open>allOf\<close>.
\<close>

theorem C4_no_composition_without_warning:
  assumes "javascript_values e"
    and "processFile fuel e f = Some (out, Generated path art)"
    and "\<forall>msg. CouldNotMerge msg \<notin> set out"
  shows "allOf_count art = 0"
proof -
  from assms(1) have deref: "\<forall>file d. dereference e file = Inr d \<longrightarrow> well_formed d"
    and lib: "\<forall>obj merged. well_formed obj \<longrightarrow> mergeAllOf e obj = Inr merged \<longrightarrow> well_formed merged"
    and perm: "permuting (engineSort e)"
    by (simp_all add: javascript_values_def)
  from assms(2) obtain log r where ds0: "dereferenceSpec fuel e f = Some (log, r)"
    by (auto simp: processFile_def split: option.splits)
  with assms(2) obtain name spec where r: "r = Inr (name, spec)"
    by (cases r) (auto simp: processFile_def)
  from ds0 r have ds: "dereferenceSpec fuel e f = Some (log, Inr (name, spec))" by simp
  with assms(2) have art: "art = warned spec" and out: "set log \<subseteq> set out"
    by (auto simp: processFile_def writeSpec_def Let_def split: option.splits)
  from ds obtain d where d: "dereference e f = Inr d"
    by (cases "dereference e f") (auto simp: dereferenceSpec_def Let_def)
  with ds obtain ws merged where
    m: "mergeAllOfSchemas fuel (mergeAllOf e) d = Some (ws, merged)"
    by (auto simp: dereferenceSpec_def Let_def split: option.splits)
  with ds d have fin: "finishSpec e merged = Inr spec"
    and log: "set (map CouldNotMerge ws) \<subseteq> set log"
    by (auto simp: dereferenceSpec_def Let_def split: sum.splits)
  from log out assms(3) have "ws = []" by (cases ws) auto
  with m have "allOf_count merged = 0" by (simp add: mergeAllOfSchemas_clean)
  from finishSpec_clean [OF perm this fin] have clean: "allOf_count spec = 0" .
  from deref d have "well_formed d" by blast
  from mergeAllOfSchemas_well_formed [OF lib this m] have "well_formed merged" .
  from finishSpec_well_formed [OF perm this fin] have "well_formed spec" .
  from warned_clean [OF clean this] art show ?thesis by simp
qed

subsection \<open>The concrete environment returns JavaScript values\<close>

lemma fold_set_prop_well_formed:
  "well_formed (JObj base) \<Longrightarrow> \<forall>kv\<in>set kvs. well_formed (snd kv)
    \<Longrightarrow> well_formed (JObj (foldl (\<lambda>acc kv. set_prop acc (fst kv) (snd kv)) base kvs))"
proof (induction kvs arbitrary: base)
  case Nil
  then show ?case by simp
next
  case (Cons kv kvs)
  from Cons.prems have "well_formed (JObj (set_prop base (fst kv) (snd kv)))"
    by (intro set_prop_well_formed) simp_all
  from Cons.IH [OF this] Cons.prems(2) show ?case by simp
qed

lemma own_entries_well_formed:
  assumes "well_formed v" and "kv \<in> set (own_entries v)"
  shows "well_formed (snd kv)"
proof (cases v)
  case (JObj kvs)
  with assms show ?thesis by (auto simp: list_all_iff)
next
  case (JArr xs)
  with assms(2) have "snd kv \<in> set xs" by (metis own_entries.simps(2) in_set_zipE prod.collapse)
  with assms(1) JArr show ?thesis by (simp add: list_all_iff)
next
  case (JStr s)
  with assms(2) have "snd kv \<in> set (map (\<lambda>c. JStr [c]) s)"
    by (metis own_entries.simps(3) in_set_zipE prod.collapse)
  then show ?thesis by auto
qed (use assms in auto)

lemma spread_into_well_formed:
  "well_formed (JObj base) \<Longrightarrow> well_formed v \<Longrightarrow> well_formed (JObj (spread_into base v))"
  unfolding spread_into_def
  by (rule fold_set_prop_well_formed) (auto intro: own_entries_well_formed)

lemma foldl_spread_into_well_formed:
  "well_formed (JObj base) \<Longrightarrow> list_all well_formed vs
    \<Longrightarrow> well_formed (JObj (foldl spread_into base vs))"
proof (induction vs arbitrary: base)
  case Nil
  then show ?case by simp
next
  case (Cons v vs)
  from Cons.prems have "well_formed (JObj (spread_into base v))"
    by (intro spread_into_well_formed) simp_all
  from Cons.IH [OF this] Cons.prems(2) show ?case by simp
qed

lemma sample_mergeAllOf_well_formed:
  assumes "well_formed obj" and "sample_mergeAllOf obj = Inr merged"
  shows "well_formed merged"
proof -
  from assms(2) obtain kvs where obj: "obj = JObj kvs"
    by (cases obj) (auto simp: sample_mergeAllOf_def)
  from assms(2) obj obtain cs where cs: "map_of kvs ''allOf'' = Some (JArr cs)"
    by (auto simp: sample_mergeAllOf_def split: option.splits json.splits)
  from assms(2) obj cs have merged: "merged = JObj (foldl spread_into (delete_prop kvs ''allOf'') cs)"
    by (auto simp: sample_mergeAllOf_def split: if_splits)
  from cs have "(''allOf'', JArr cs) \<in> set kvs" by (rule map_of_SomeD)
  with assms(1) obj have "list_all well_formed cs" by (auto simp: list_all_iff)
  moreover from assms(1) obj have "well_formed (JObj (delete_prop kvs ''allOf''))"
    by (simp add: delete_prop_well_formed del: well_formed.simps)
  ultimately show ?thesis unfolding merged by (intro foldl_spread_into_well_formed)
qed

lemma sample_env_values:
  assumes "\<forall>d\<in>set docs. \<forall>v. snd d = Inr v \<longrightarrow> well_formed v"
  shows "javascript_values (sample_env docs)"
proof -
  have "well_formed d" if "dereference (sample_env docs) p = Inr d" for p d
  proof -
    from that obtain name where "(name, Inr d) \<in> set docs"
      by (auto simp: sample_env_def split: option.splits dest!: map_of_SomeD)
    with assms show ?thesis by force
  qed
  moreover have "permuting (engineSort (sample_env docs))"
    by (simp add: sample_env_def permuting_def)
  moreover have "well_formed merged"
    if "well_formed obj" and "mergeAllOf (sample_env docs) obj = Inr merged" for obj merged
    using that sample_mergeAllOf_well_formed by (simp add: sample_env_def)
  ultimately show ?thesis unfolding javascript_values_def by blast
qed

text \<open>
  C4 as stated fails: the file written for the document with the composition of
  \<^verbatim>\<open>string\<close> and \<^verbatim>\<open>object\<close> is reported as written and carries the key \<^verbatim>\<open>allOf\<close>. So
  does, without any warning, the file written for a document with a key \<^verbatim>\<open>allOf\<close> whose
  value is \<^verbatim>\<open>null\<close>: the test of line 67 is on the value.
\<close>

theorem C4_counterexample:
  "processFile 6 (sample_env [(''conflict.yaml'', Inr conflict_doc)])
      ''/repo/alchemy/specs/conflict.yaml''
     = Some ([Processing ''conflict'',
              CouldNotMerge
                ''Could not resolve values for path:type. They are probably incompatible.'',
              Dereferenced, WrittenTo ''conflict''],
             Generated ''conflict.json'' (warned conflict_doc))
   \<and> carries_allOf (warned conflict_doc)
   \<and> allOf_count (warned conflict_doc) = 1
   \<and> processFile 6
        (sample_env [(''empty.yaml'',
           Inr (JObj [(''openrpc'', JStr ''1.2.4''), (''schema'', JObj [(''allOf'', JNull)])]))])
        ''/repo/alchemy/specs/empty.yaml''
     = Some ([Processing ''empty'', Dereferenced, WrittenTo ''empty''],
             Generated ''empty.json''
               (JObj [(WARNING_KEY, JStr WARNING_TEXT), (''openrpc'', JStr ''1.2.4''),
                      (''schema'', JObj [(''allOf'', JNull)])]))
   \<and> carries_allOf
        (JObj [(WARNING_KEY, JStr WARNING_TEXT), (''openrpc'', JStr ''1.2.4''),
               (''schema'', JObj [(''allOf'', JNull)])])"
  by code_simp

theorem C4_witness:
  "javascript_values (sample_env [(''eth.yaml'', Inr eth_doc)])
   \<and> processFile 6 (sample_env [(''eth.yaml'', Inr eth_doc)]) ''/repo/alchemy/specs/eth.yaml''
     = Some ([Processing ''eth'', Dereferenced, WrittenTo ''eth''],
             Generated ''eth.json''
               (JObj [(WARNING_KEY, JStr WARNING_TEXT),
                      (''openrpc'', JStr ''1.2.4''),
                      (''methods'',
                        JArr [JObj [(''name'', JStr ''alpha''),
                                    (''result'', JObj [(''type'', JStr ''string''),
                                                       (''pattern'', JStr ''^0x'')])],
                              JObj [(''name'', JStr ''alpha''), (''summary'', JStr ''second'')],
                              JObj [(''name'', JStr ''zeta''), (''params'', JArr [])]])]))
   \<and> allOf_count
        (JObj [(WARNING_KEY, JStr WARNING_TEXT),
               (''openrpc'', JStr ''1.2.4''),
               (''methods'',
                 JArr [JObj [(''name'', JStr ''alpha''),
                             (''result'', JObj [(''type'', JStr ''string''),
                                                (''pattern'', JStr ''^0x'')])],
                       JObj [(''name'', JStr ''alpha''), (''summary'', JStr ''second'')],
                       JObj [(''name'', JStr ''zeta''), (''params'', JArr [])]])]) = 0"
proof -
  let ?e = "sample_env [(''eth.yaml'', Inr eth_doc)]"
  let ?art = "JObj [(WARNING_KEY, JStr WARNING_TEXT),
               (''openrpc'', JStr ''1.2.4''),
               (''methods'',
                 JArr [JObj [(''name'', JStr ''alpha''),
                             (''result'', JObj [(''type'', JStr ''string''),
                                                (''pattern'', JStr ''^0x'')])],
                       JObj [(''name'', JStr ''alpha''), (''summary'', JStr ''second'')],
                       JObj [(''name'', JStr ''zeta''), (''params'', JArr [])]])]"
  have "well_formed eth_doc" by (simp add: eth_doc_def)
  then have 1: "javascript_values ?e" by (intro sample_env_values) simp
  have 2: "processFile 6 ?e ''/repo/alchemy/specs/eth.yaml''
     = Some ([Processing ''eth'', Dereferenced, WrittenTo ''eth''], Generated ''eth.json'' ?art)"
    by code_simp
  have 3: "\<forall>msg. CouldNotMerge msg \<notin> set [Processing ''eth'', Dereferenced, WrittenTo ''eth'']"
    by simp
  from C4_no_composition_without_warning [OF 1 2 3] have "allOf_count ?art = 0" .
  with 1 2 show ?thesis by (intro conjI)
qed

subsection \<open>A composition that cannot be merged\<close>















text \<open>
  Two places from which a composition that is left does not reach the file: below the
  top-level \<^verbatim>\<open>components\<close>, which line 31 deletes after the merge pass, and below a key
  \<^verbatim>\<open>__proto__\<close>, for which the copy of line 81 creates no property. The warning is printed
  in both.
\<close>

lemma composition_below_components:
  "processFile 6
     (sample_env [(''c.yaml'',
        Inr (JObj [(''openrpc'', JStr ''1.2.4''),
                   (''components'', JObj [(''schemas'', JObj [(''S'', conflict_node)])])]))])
     ''/repo/alchemy/specs/c.yaml''
   = Some ([Processing ''c'', CouldNotMerge ''Could not resolve values for path:type. They are probably incompatible.'', Dereferenced, WrittenTo ''c''],
           Generated ''c.json''
             (JObj [(WARNING_KEY, JStr WARNING_TEXT), (''openrpc'', JStr ''1.2.4'')]))"
  by code_simp

lemma composition_below_proto:
  "processFile 6
     (sample_env [(''p.yaml'',
        Inr (JObj [(''openrpc'', JStr ''1.2.4''),
                   (''info'', JObj [(''title'', JStr ''t''),
                                    (''__proto__'', JObj [(''S'', conflict_node)])])]))])
     ''/repo/alchemy/specs/p.yaml''
   = Some ([Processing ''p'', CouldNotMerge ''Could not resolve values for path:type. They are probably incompatible.'', Dereferenced, WrittenTo ''p''],
           Generated ''p.json''
             (JObj [(WARNING_KEY, JStr WARNING_TEXT), (''openrpc'', JStr ''1.2.4''),
                    (''info'', JObj [(''title'', JStr ''t'')])]))"
  by code_simp

section \<open>The resolver of the specification\<close>

subsection \<open>Fuel\<close>

lemma thread_mono:
  assumes "\<And>c x r. x \<in> set xs \<Longrightarrow> f c x = Some r \<Longrightarrow> g c x = Some r"
  shows "thread f c xs = Some r \<Longrightarrow> thread g c xs = Some r"
  using assms
proof (induction xs arbitrary: c r)
  case Nil
  then show ?case by simp
next
  case (Cons x xs)
  from Cons.prems(1) obtain r1 where r1: "f c x = Some r1"
    by (auto split: option.splits)
  with Cons.prems(2) have g1: "g c x = Some r1" by simp
  show ?case
  proof (cases r1)
    case (Inl err)
    with r1 g1 Cons.prems(1) show ?thesis by simp
  next
    case (Inr yc)
    obtain y c' where yc: "yc = (y, c')" by (cases yc)
    with Inr r1 Cons.prems(1) obtain r2 where r2: "thread f c' xs = Some r2"
      by (auto split: option.splits)
    have "thread g c' xs = Some r2"
      by (rule Cons.IH [OF r2]) (use Cons.prems(2) in auto)
    with r1 g1 r2 Inr yc Cons.prems(1) show ?thesis by simp
  qed
qed

lemma resolve_mono:
  "resolve n store cur prog cache node = Some r \<Longrightarrow> n \<le> m
    \<Longrightarrow> resolve m store cur prog cache node = Some r"
proof (induction n arbitrary: m cur prog cache node r)
  case 0
  then show ?case by simp
next
  case (Suc n)
  from Suc.prems(2) obtain m' where m: "m = Suc m'" and le: "n \<le> m'"
    by (cases m) auto
  have sub: "resolve m' store cur' prog' c x = Some r'"
    if "resolve n store cur' prog' c x = Some r'" for cur' prog' c x r'
    using Suc.IH [OF that le] .
  have thr: "thread (resolve m' store cur prog) cache xs = Some r'"
    if "thread (resolve n store cur prog) cache xs = Some r'" for xs r'
    by (rule thread_mono [OF _ that]) (rule sub)
  show ?case
  proof (cases "reference_of node")
    case (Some expr)
    let ?loc = "parse_location cur expr"
    show ?thesis
    proof (cases "?loc \<in> set prog \<or> map_of cache ?loc \<noteq> None \<or> target store ?loc = None")
      case True
      with Suc.prems(1) Some m show ?thesis by (auto simp: Let_def split: option.splits)
    next
      case False
      then obtain t where t: "target store ?loc = Some t" by auto
      with False Suc.prems(1) Some obtain r' where
        r': "resolve n store (fst ?loc) (?loc # prog) cache t = Some r'"
        by (auto simp: Let_def split: option.splits)
      from sub [OF r'] r' False t Suc.prems(1) Some m show ?thesis
        by (simp add: Let_def)
    qed
  next
    case None
    show ?thesis
    proof (cases node)
      case (JArr xs)
      with None Suc.prems(1) obtain r' where
        r': "thread (resolve n store cur prog) cache xs = Some r'"
        by (auto split: option.splits)
      from thr [OF r'] r' None JArr Suc.prems(1) m show ?thesis by simp
    next
      case (JObj kvs)
      with None Suc.prems(1) obtain r' where
        r': "thread (resolve n store cur prog) cache (map snd kvs) = Some r'"
        by (auto split: option.splits)
      from thr [OF r'] r' None JObj Suc.prems(1) m show ?thesis by simp
    qed (use None Suc.prems(1) m in auto)
  qed
qed

subsection \<open>A resolved document has no circular chain\<close>

lemma leads_to_cycle_step:
  assumes "leads_to_cycle store a"
  shows "\<exists>s. ref_step store a s \<and> leads_to_cycle store s"
proof -
  from assms obtain b where ab: "(ref_step store)\<^sup>*\<^sup>* a b" and bb: "(ref_step store)\<^sup>+\<^sup>+ b b"
    by (auto simp: leads_to_cycle_def)
  from ab show ?thesis
  proof (cases rule: converse_rtranclpE)
    case base
    from bb obtain s where bs: "ref_step store b s" and sb: "(ref_step store)\<^sup>*\<^sup>* s b"
      by (auto dest: tranclpD)
    from sb bb have "leads_to_cycle store s" unfolding leads_to_cycle_def by blast
    with bs base show ?thesis by blast
  next
    case (step s)
    from step(2) bb have "leads_to_cycle store s" unfolding leads_to_cycle_def by blast
    with step(1) show ?thesis by blast
  qed
qed

lemma thread_success:
  assumes "thread f c xs = Some (Inr (ys, c'))" and "P c"
    and "\<And>c x y c1. x \<in> set xs \<Longrightarrow> P c \<Longrightarrow> f c x = Some (Inr (y, c1)) \<Longrightarrow> P c1 \<and> Q x"
  shows "P c' \<and> (\<forall>x\<in>set xs. Q x)"
  using assms
proof (induction xs arbitrary: c ys)
  case Nil
  then show ?case by simp
next
  case (Cons x xs)
  from Cons.prems(1) obtain y c1 where h: "f c x = Some (Inr (y, c1))"
    by (auto split: option.splits sum.splits)
  with Cons.prems(1) obtain ys' where t: "thread f c1 xs = Some (Inr (ys', c'))"
    by (auto split: option.splits sum.splits)
  from Cons.prems(3) [OF _ Cons.prems(2) h] have 1: "P c1" and 2: "Q x" by simp_all
  have "P c' \<and> (\<forall>x\<in>set xs. Q x)"
    by (rule Cons.IH [OF t 1]) (use Cons.prems(3) in auto)
  with 2 show ?case by simp
qed

lemma resolve_success:
  "resolve n store cur prog cache node = Some (Inr (r, cache'))
    \<Longrightarrow> \<forall>loc\<in>fst ` set cache. \<not> leads_to_cycle store loc
    \<Longrightarrow> (\<forall>loc\<in>fst ` set cache'. \<not> leads_to_cycle store loc)
        \<and> (\<forall>loc\<in>set (refs_in cur node). \<not> leads_to_cycle store loc)"
proof (induction n arbitrary: cur prog cache node r cache')
  case 0
  then show ?case by simp
next
  case (Suc n)
  have children: "(\<forall>loc\<in>fst ` set cache'. \<not> leads_to_cycle store loc)
        \<and> (\<forall>x\<in>set xs. \<forall>loc\<in>set (refs_in cur x). \<not> leads_to_cycle store loc)"
    if "thread (resolve n store cur prog) cache xs = Some (Inr (ys, cache'))" for xs ys
  proof (rule thread_success
        [where P = "\<lambda>c. \<forall>loc\<in>fst ` set c. \<not> leads_to_cycle store loc"
           and Q = "\<lambda>x. \<forall>loc\<in>set (refs_in cur x). \<not> leads_to_cycle store loc",
         OF that Suc.prems(2)])
    fix c x y c1
    assume "\<forall>loc\<in>fst ` set c. \<not> leads_to_cycle store loc"
      and "resolve n store cur prog c x = Some (Inr (y, c1))"
    from Suc.IH [OF this(2) this(1)]
    show "(\<forall>loc\<in>fst ` set c1. \<not> leads_to_cycle store loc)
        \<and> (\<forall>loc\<in>set (refs_in cur x). \<not> leads_to_cycle store loc)" .
  qed
  show ?case
  proof (cases "reference_of node")
    case (Some expr)
    let ?loc = "parse_location cur expr"
    from Some obtain kvs where node: "node = JObj kvs" by (cases node) auto
    with Some have refs: "refs_in cur node = [?loc]" by simp
    from Suc.prems(1) Some have np: "?loc \<notin> set prog"
      by (auto simp: Let_def split: if_splits)
    show ?thesis
    proof (cases "map_of cache ?loc")
      case (Some resolved)
      with Suc.prems(1) \<open>reference_of node = Some expr\<close> np have "cache' = cache"
        by (simp add: Let_def)
      moreover from Some have "?loc \<in> fst ` set cache"
        by (metis map_of_SomeD fst_conv image_eqI)
      ultimately show ?thesis using Suc.prems(2) refs by auto
    next
      case None
      with Suc.prems(1) \<open>reference_of node = Some expr\<close> np obtain t where
        t: "target store ?loc = Some t"
        by (auto simp: Let_def split: option.splits)
      with None Suc.prems(1) \<open>reference_of node = Some expr\<close> np obtain c1 where
        run: "resolve n store (fst ?loc) (?loc # prog) cache t = Some (Inr (r, c1))"
        and c': "cache' = (?loc, r) # c1"
        by (auto simp: Let_def split: option.splits sum.splits)
      from Suc.IH [OF run Suc.prems(2)]
      have c1: "\<forall>loc\<in>fst ` set c1. \<not> leads_to_cycle store loc"
        and below: "\<forall>loc\<in>set (refs_in (fst ?loc) t). \<not> leads_to_cycle store loc" by simp_all
      have "\<not> leads_to_cycle store ?loc"
      proof
        assume "leads_to_cycle store ?loc"
        from leads_to_cycle_step [OF this] obtain s where
          "ref_step store ?loc s" and s: "leads_to_cycle store s" by blast
        with t have "s \<in> set (refs_in (fst ?loc) t)" by (auto simp: ref_step_def)
        with below s show False by blast
      qed
      with c1 c' refs show ?thesis by simp
    qed
  next
    case None
    show ?thesis
    proof (cases node)
      case (JArr xs)
      with None Suc.prems(1) obtain ys where
        "thread (resolve n store cur prog) cache xs = Some (Inr (ys, cache'))"
        by (auto split: option.splits sum.splits)
      from children [OF this] JArr show ?thesis by simp
    next
      case (JObj kvs)
      with None Suc.prems(1) obtain ys where
        "thread (resolve n store cur prog) cache (map snd kvs) = Some (Inr (ys, cache'))"
        by (auto split: option.splits sum.splits)
      from children [OF this] JObj None show ?thesis by simp
    qed (use None Suc.prems in auto)
  qed
qed

subsection \<open>The resolver returns\<close>

lemma children_smaller: "kv \<in> set (node_children node) \<Longrightarrow> size (snd kv) < size node"
proof (cases node)
  case (JArr xs)
  assume "kv \<in> set (node_children node)"
  with JArr have "snd kv \<in> set xs" by (metis node_children.simps(2) in_set_zipE prod.collapse)
  with JArr size_member [of "snd kv" xs] show ?thesis by simp
next
  case (JObj kvs)
  assume "kv \<in> set (node_children node)"
  with JObj size_value [of kv kvs] show ?thesis by simp
qed auto

lemma finite_paths: "finite {p. lookup_path node p \<noteq> None}"
proof (induction node rule: measure_induct_rule [where f = size])
  case (less node)
  let ?below = "\<Union>kv\<in>set (node_children node). (\<lambda>p. fst kv # p) ` {p. lookup_path (snd kv) p \<noteq> None}"
  have "{p. lookup_path node p \<noteq> None} \<subseteq> insert [] ?below"
  proof
    fix p assume p: "p \<in> {p. lookup_path node p \<noteq> None}"
    show "p \<in> insert [] ?below"
    proof (cases p)
      case Nil
      then show ?thesis by simp
    next
      case (Cons s ss)
      with p obtain child where c: "map_of (node_children node) s = Some child"
        and l: "lookup_path child ss \<noteq> None"
        by (auto split: option.splits)
      from c have m: "(s, child) \<in> set (node_children node)" by (rule map_of_SomeD)
      from l have "ss \<in> {p. lookup_path (snd (s, child)) p \<noteq> None}" by simp
      then have "fst (s, child) # ss \<in> (\<lambda>p. fst (s, child) # p) ` {p. lookup_path (snd (s, child)) p \<noteq> None}"
        by (rule imageI)
      with m have "fst (s, child) # ss \<in> ?below" by (rule UN_I)
      with Cons show ?thesis by simp
    qed
  qed
  moreover have "finite ?below"
  proof (rule finite_UN_I)
    show "finite (set (node_children node))" by simp
    fix kv assume "kv \<in> set (node_children node)"
    then have "size (snd kv) < size node" by (rule children_smaller)
    then have "finite {p. lookup_path (snd kv) p \<noteq> None}" by (rule less.IH)
    then show "finite ((\<lambda>p. fst kv # p) ` {p. lookup_path (snd kv) p \<noteq> None})"
      by (rule finite_imageI)
  qed
  then have "finite (insert [] ?below)" by simp
  ultimately show ?case by (rule finite_subset)
qed

lemma finite_targets: "finite {loc. target store loc \<noteq> None}"
proof -
  let ?all = "\<Union>entry\<in>set store. {fst entry} \<times> {p. lookup_path (snd entry) p \<noteq> None}"
  have "{loc. target store loc \<noteq> None} \<subseteq> ?all"
  proof
    fix loc assume "loc \<in> {loc. target store loc \<noteq> None}"
    then obtain doc where d: "map_of store (fst loc) = Some doc"
      and l: "lookup_path doc (snd loc) \<noteq> None"
      by (auto simp: target_def split: option.splits)
    from d have m: "(fst loc, doc) \<in> set store" by (rule map_of_SomeD)
    from l have "loc \<in> {fst (fst loc, doc)} \<times> {p. lookup_path (snd (fst loc, doc)) p \<noteq> None}"
      by (cases loc) simp
    with m show "loc \<in> ?all" by (rule UN_I)
  qed
  moreover have "finite ?all"
    by (intro finite_UN_I finite_cartesian_product finite_paths) simp_all
  ultimately show ?thesis by (rule finite_subset)
qed

lemma thread_total:
  assumes mono: "\<And>n m c x r. x \<in> set xs \<Longrightarrow> f n c x = Some r \<Longrightarrow> n \<le> m \<Longrightarrow> f m c x = Some r"
    and total: "\<And>x c. x \<in> set xs \<Longrightarrow> \<exists>n. \<forall>m\<ge>n. f m c x \<noteq> None"
  shows "\<exists>n::nat. \<forall>m\<ge>n. thread (f m) c xs \<noteq> None"
  using assms
proof (induction xs arbitrary: c)
  case Nil
  have "\<forall>m\<ge>(0::nat). thread (f m) c [] \<noteq> None" by simp
  then show ?case by (rule exI)
next
  case (Cons x xs)
  have xin: "x \<in> set (x # xs)" by simp
  from Cons.prems(2) [OF xin, of c] obtain n1 where n1: "\<forall>m\<ge>n1. f m c x \<noteq> None" ..
  from n1 have "f n1 c x \<noteq> None" by simp
  then obtain r1 where r1: "f n1 c x = Some r1" by (cases "f n1 c x") simp_all
  have r1': "f m c x = Some r1" if "m \<ge> n1" for m
    by (rule Cons.prems(1) [OF xin r1 that])
  show ?case
  proof (cases r1)
    case (Inl err)
    have "\<forall>m\<ge>n1. thread (f m) c (x # xs) \<noteq> None"
    proof (intro allI impI)
      fix m assume "n1 \<le> m"
      then have "f m c x = Some (Inl err)" using r1' Inl by simp
      then show "thread (f m) c (x # xs) \<noteq> None" by simp
    qed
    then show ?thesis by (rule exI)
  next
    case (Inr yc)
    obtain y c1 where yc: "yc = (y, c1)" by (cases yc)
    have "\<exists>n. \<forall>m\<ge>n. thread (f m) c1 xs \<noteq> None"
    proof (rule Cons.IH)
      fix n m c' x' r
      assume "x' \<in> set xs" and e: "f n c' x' = Some r" and le: "n \<le> m"
      then have "x' \<in> set (x # xs)" by simp
      then show "f m c' x' = Some r" using e le by (rule Cons.prems(1))
    next
      fix x' c'
      assume "x' \<in> set xs"
      then have "x' \<in> set (x # xs)" by simp
      then show "\<exists>n. \<forall>m\<ge>n. f m c' x' \<noteq> None" by (rule Cons.prems(2))
    qed
    then obtain n2 where n2: "\<forall>m\<ge>n2. thread (f m) c1 xs \<noteq> None" ..
    have "\<forall>m\<ge>max n1 n2. thread (f m) c (x # xs) \<noteq> None"
    proof (intro allI impI)
      fix m assume le: "max n1 n2 \<le> m"
      then have "n1 \<le> m" by simp
      then have fx: "f m c x = Some (Inr (y, c1))" using r1' Inr yc by simp
      from le have "n2 \<le> m" by simp
      with n2 have "thread (f m) c1 xs \<noteq> None" by simp
      then obtain r2 where r2: "thread (f m) c1 xs = Some r2"
        by (cases "thread (f m) c1 xs") simp_all
      show "thread (f m) c (x # xs) \<noteq> None"
        using fx r2 by (cases r2) (simp_all split: prod.splits)
    qed
    then show ?thesis by (rule exI)
  qed
qed

lemma resolve_total_step:
  assumes deeper: "\<And>loc t cache'. loc \<notin> set prog \<Longrightarrow> target store loc = Some t
      \<Longrightarrow> \<exists>n. \<forall>m\<ge>n. resolve m store (fst loc) (loc # prog) cache' t \<noteq> None"
  shows "\<exists>n. \<forall>m\<ge>n. resolve m store cur prog cache node \<noteq> None"
proof (induction node arbitrary: cache rule: measure_induct_rule [where f = size])
  case (less node)
  have children: "\<exists>n. \<forall>m\<ge>n. thread (resolve m store cur prog) cache xs \<noteq> None"
    if "\<And>x. x \<in> set xs \<Longrightarrow> size x < size node" for xs
  proof (rule thread_total)
    show "resolve m store cur prog c x = Some r"
      if "resolve n store cur prog c x = Some r" and "n \<le> m" for n m c x r
      using that by (rule resolve_mono)
    show "\<exists>n. \<forall>m\<ge>n. resolve m store cur prog c x \<noteq> None" if "x \<in> set xs" for x c
      using less.IH \<open>\<And>x. x \<in> set xs \<Longrightarrow> size x < size node\<close> that by blast
  qed
  have suc: "\<exists>n. \<forall>m\<ge>n. resolve m store cur prog cache node \<noteq> None"
    if "\<exists>n. \<forall>m\<ge>n. resolve (Suc m) store cur prog cache node \<noteq> None"
  proof -
    from that obtain n where n: "\<forall>m\<ge>n. resolve (Suc m) store cur prog cache node \<noteq> None"
      by blast
    have "resolve m store cur prog cache node \<noteq> None" if "m \<ge> Suc n" for m
    proof -
      from that obtain m' where "m = Suc m'" and "n \<le> m'" by (cases m) auto
      with n show ?thesis by simp
    qed
    then show ?thesis by blast
  qed
  show ?case
  proof (cases "reference_of node")
    case (Some expr)
    let ?loc = "parse_location cur expr"
    show ?thesis
    proof (cases "?loc \<in> set prog \<or> map_of cache ?loc \<noteq> None \<or> target store ?loc = None")
      case True
      with Some have "resolve (Suc m) store cur prog cache node \<noteq> None" for m
        by (auto simp: Let_def split: option.splits)
      then show ?thesis by (intro suc) blast
    next
      case False
      then obtain t where t: "target store ?loc = Some t" by auto
      from deeper [OF _ t] False obtain n where
        n: "\<forall>m\<ge>n. resolve m store (fst ?loc) (?loc # prog) cache t \<noteq> None" by blast
      have "resolve (Suc m) store cur prog cache node \<noteq> None" if "m \<ge> n" for m
        using n that Some False t by (auto simp: Let_def split: option.splits sum.splits)
      then show ?thesis by (intro suc) blast
    qed
  next
    case None
    show ?thesis
    proof (cases node)
      case (JArr xs)
      have "\<exists>n. \<forall>m\<ge>n. thread (resolve m store cur prog) cache xs \<noteq> None"
        by (rule children) (use JArr size_member in auto)
      then obtain n where n: "\<forall>m\<ge>n. thread (resolve m store cur prog) cache xs \<noteq> None"
        by blast
      have "resolve (Suc m) store cur prog cache node \<noteq> None" if "m \<ge> n" for m
        using n that None JArr by (auto split: option.splits sum.splits)
      then show ?thesis by (intro suc) blast
    next
      case (JObj kvs)
      have "\<exists>n. \<forall>m\<ge>n. thread (resolve m store cur prog) cache (map snd kvs) \<noteq> None"
      proof (rule children)
        fix x assume "x \<in> set (map snd kvs)"
        then obtain kv where "kv \<in> set kvs" and "x = snd kv" by auto
        with size_value [of kv kvs] JObj show "size x < size node" by simp
      qed
      then obtain n where
        n: "\<forall>m\<ge>n. thread (resolve m store cur prog) cache (map snd kvs) \<noteq> None" by blast
      have "resolve (Suc m) store cur prog cache node \<noteq> None" if "m \<ge> n" for m
        using n that None JObj by (auto split: option.splits sum.splits)
      then show ?thesis by (intro suc) blast
    next
      case JNull
      with None have "resolve (Suc m) store cur prog cache node \<noteq> None" for m by simp
      then show ?thesis by (intro suc) blast
    next
      case (JBool b)
      with None have "resolve (Suc m) store cur prog cache node \<noteq> None" for m by simp
      then show ?thesis by (intro suc) blast
    next
      case (JNum i)
      with None have "resolve (Suc m) store cur prog cache node \<noteq> None" for m by simp
      then show ?thesis by (intro suc) blast
    next
      case (JStr s)
      with None have "resolve (Suc m) store cur prog cache node \<noteq> None" for m by simp
      then show ?thesis by (intro suc) blast
    qed
  qed
qed

lemma resolve_total:
  "card ({loc. target store loc \<noteq> None} - set prog) \<le> k
    \<Longrightarrow> \<exists>n. \<forall>m\<ge>n. resolve m store cur prog cache node \<noteq> None"
proof (induction k arbitrary: prog cur cache node)
  case 0
  show ?case
  proof (rule resolve_total_step)
    fix loc t cache'
    assume "loc \<notin> set prog" and "target store loc = Some t"
    then have "loc \<in> {loc. target store loc \<noteq> None} - set prog" by simp
    moreover from 0 finite_targets [of store]
    have "{loc. target store loc \<noteq> None} - set prog = {}" by simp
    ultimately have False by blast
    then show "\<exists>n. \<forall>m\<ge>n. resolve m store (fst loc) (loc # prog) cache' t \<noteq> None" ..
  qed
next
  case (Suc k)
  show ?case
  proof (rule resolve_total_step)
    fix loc t cache'
    assume np: "loc \<notin> set prog" and t: "target store loc = Some t"
    let ?valid = "{loc. target store loc \<noteq> None}"
    from np t have "loc \<in> ?valid - set prog" by simp
    moreover have "?valid - set (loc # prog) = (?valid - set prog) - {loc}" by auto
    moreover have "finite (?valid - set prog)" using finite_targets [of store] by simp
    ultimately have "card (?valid - set (loc # prog)) < card (?valid - set prog)"
      by (metis card_Diff1_less)
    with Suc.prems have "card (?valid - set (loc # prog)) \<le> k" by simp
    then show "\<exists>n. \<forall>m\<ge>n. resolve m store (fst loc) (loc # prog) cache' t \<noteq> None"
      by (rule Suc.IH)
  qed
qed

subsection \<open>Only a missing target is a resolution failure\<close>

lemma reference_of_SomeD:
  "reference_of node = Some expr \<Longrightarrow> node = JObj [(REFERENCE_KEY, JStr expr)]"
  by (induction node rule: reference_of.induct) (simp_all split: if_splits)

lemma refs_in_child:
  assumes "kv \<in> set (node_children node)"
  shows "set (refs_in cur (snd kv)) \<subseteq> set (refs_in cur node)"
proof (cases node)
  case (JArr xs)
  from assms JArr have "kv \<in> set (zip (map show_nat [0..<length xs]) xs)" by simp
  then have "(fst kv, snd kv) \<in> set (zip (map show_nat [0..<length xs]) xs)" by simp
  then have "snd kv \<in> set xs" by (rule set_zip_rightD)
  then show ?thesis using JArr by (simp add: subset_iff) blast
next
  case (JObj kvs)
  show ?thesis
  proof (cases "reference_of (JObj kvs)")
    case None
    from assms JObj have "kv \<in> set kvs" by simp
    then show ?thesis using JObj None by (simp add: subset_iff) blast
  next
    case (Some expr)
    then have "JObj kvs = JObj [(REFERENCE_KEY, JStr expr)]" by (rule reference_of_SomeD)
    then have "kvs = [(REFERENCE_KEY, JStr expr)]" by simp
    with assms JObj have "snd kv = JStr expr" by simp
    then show ?thesis by simp
  qed
qed (use assms in simp_all)

lemma refs_in_lookup:
  "lookup_path node p = Some t \<Longrightarrow> set (refs_in cur t) \<subseteq> set (refs_in cur node)"
proof (induction p arbitrary: node)
  case Nil
  then show ?case by simp
next
  case (Cons s ss)
  from Cons.prems obtain child where
    c: "map_of (node_children node) s = Some child" and l: "lookup_path child ss = Some t"
    by (cases "map_of (node_children node) s") simp_all
  from c have "(s, child) \<in> set (node_children node)" by (rule map_of_SomeD)
  from refs_in_child [OF this, of cur]
  have 1: "set (refs_in cur child) \<subseteq> set (refs_in cur node)" by simp
  from Cons.IH [OF l] have 2: "set (refs_in cur t) \<subseteq> set (refs_in cur child)" .
  from 2 1 show ?case by (rule subset_trans)
qed

lemma closed_target:
  assumes "closed store" and "target store loc = Some t" and "loc' \<in> set (refs_in (fst loc) t)"
  shows "target store loc' \<noteq> None"
proof -
  from assms(2) obtain d where d: "map_of store (fst loc) = Some d"
    and l: "lookup_path d (snd loc) = Some t"
    by (cases "map_of store (fst loc)") (simp_all add: target_def)
  from refs_in_lookup [OF l, of "fst loc"] assms(3)
  have "loc' \<in> set (refs_in (fst loc) d)" by (rule subsetD)
  with assms(1) d show ?thesis unfolding closed_def by blast
qed

lemma thread_error:
  "thread f c xs = Some (Inl err) \<Longrightarrow> \<exists>x\<in>set xs. \<exists>c'. f c' x = Some (Inl err)"
proof (induction xs arbitrary: c)
  case Nil
  then show ?case by simp
next
  case (Cons x xs)
  show ?case
  proof (cases "f c x")
    case None
    with Cons.prems show ?thesis by simp
  next
    case (Some r)
    show ?thesis
    proof (cases r)
      case (Inl e)
      with Some Cons.prems have "f c x = Some (Inl err)" by simp
      then have "\<exists>c'. f c' x = Some (Inl err)" by (rule exI)
      then show ?thesis by simp
    next
      case (Inr yc)
      obtain y c1 where yc: "yc = (y, c1)" by (cases yc)
      from Cons.prems Some Inr yc have "thread f c1 xs = Some (Inl err)"
        by (simp split: option.splits sum.splits prod.splits)
      from Cons.IH [OF this] show ?thesis by simp
    qed
  qed
qed

lemma resolve_error_is_circular:
  assumes "closed store"
  shows "resolve n store cur prog cache node = Some (Inl err)
    \<Longrightarrow> \<forall>loc\<in>set (refs_in cur node). target store loc \<noteq> None
    \<Longrightarrow> names_cycle err"
proof (induction n arbitrary: cur prog cache node)
  case 0
  then show ?case by simp
next
  case (Suc n)
  have children: "names_cycle err"
    if t: "thread (resolve n store cur prog) cache xs = Some (Inl err)"
      and sub: "\<And>x. x \<in> set xs \<Longrightarrow> set (refs_in cur x) \<subseteq> set (refs_in cur node)" for xs
  proof -
    from thread_error [OF t] obtain x c' where x: "x \<in> set xs"
      and r: "resolve n store cur prog c' x = Some (Inl err)" by blast
    have "\<forall>loc\<in>set (refs_in cur x). target store loc \<noteq> None"
    proof
      fix loc assume "loc \<in> set (refs_in cur x)"
      with sub [OF x] have "loc \<in> set (refs_in cur node)" by (rule subsetD)
      with Suc.prems(2) show "target store loc \<noteq> None" by (rule bspec)
    qed
    with r show ?thesis by (rule Suc.IH)
  qed
  show ?case
  proof (cases "reference_of node")
    case (Some expr)
    then have node: "node = JObj [(REFERENCE_KEY, JStr expr)]" by (rule reference_of_SomeD)
    define loc where "loc = parse_location cur expr"
    from node Some have "loc \<in> set (refs_in cur node)" by (simp add: loc_def)
    with Suc.prems(2) have "target store loc \<noteq> None" by (rule bspec)
    then obtain t where t: "target store loc = Some t" by (cases "target store loc") simp_all
    show ?thesis
    proof (cases "loc \<in> set prog")
      case True
      with Suc.prems(1) Some have "err = CircularReference (loc # prog)"
        by (simp add: loc_def Let_def)
      with True show ?thesis by simp
    next
      case False
      show ?thesis
      proof (cases "map_of cache loc")
        case (Some resolved)
        with Suc.prems(1) \<open>reference_of node = Some expr\<close> False show ?thesis
          by (simp add: loc_def Let_def)
      next
        case None
        with Suc.prems(1) \<open>reference_of node = Some expr\<close> False t
        have r: "resolve n store (fst loc) (loc # prog) cache t = Some (Inl err)"
          by (simp add: loc_def [symmetric] Let_def split: option.splits sum.splits prod.splits)
        have "\<forall>loc'\<in>set (refs_in (fst loc) t). target store loc' \<noteq> None"
        proof
          fix loc' assume "loc' \<in> set (refs_in (fst loc) t)"
          with assms t show "target store loc' \<noteq> None" by (rule closed_target)
        qed
        with r show ?thesis by (rule Suc.IH)
      qed
    qed
  next
    case None
    show ?thesis
    proof (cases node)
      case (JArr xs)
      with Suc.prems(1) None
      have "thread (resolve n store cur prog) cache xs = Some (Inl err)"
        by (simp split: option.splits sum.splits prod.splits)
      then show ?thesis
      proof (rule children)
        fix x assume "x \<in> set xs"
        then show "set (refs_in cur x) \<subseteq> set (refs_in cur node)"
          using JArr by (simp add: subset_iff) blast
      qed
    next
      case (JObj kvs)
      with Suc.prems(1) None
      have "thread (resolve n store cur prog) cache (map snd kvs) = Some (Inl err)"
        by (simp split: option.splits sum.splits prod.splits)
      then show ?thesis
      proof (rule children)
        fix x assume "x \<in> set (map snd kvs)"
        then obtain kv where kv: "kv \<in> set kvs" and x: "x = snd kv" by auto
        from kv JObj have "kv \<in> set (node_children node)" by simp
        from refs_in_child [OF this, of cur] x
        show "set (refs_in cur x) \<subseteq> set (refs_in cur node)" by simp
      qed
    qed (use Suc.prems(1) None in simp_all)
  qed
qed


subsection \<open>A document with a circular chain is not resolved\<close>

lemma ref_step_iff [code]:
  "ref_step store a b
    = (case target store a of None \<Rightarrow> False | Some t \<Rightarrow> b \<in> set (refs_in (fst a) t))"
  by (simp add: ref_step_def split: option.splits)

lemma all_loadable_closed: "all_loadable store \<Longrightarrow> closed store"
proof -
  assume a: "all_loadable store"
  have "target store loc \<noteq> None"
    if m: "map_of store d = Some document" and l: "loc \<in> set (refs_in d document)"
    for d document loc
  proof -
    from m have "(d, document) \<in> set store" by (rule map_of_SomeD)
    with a have "list_all (\<lambda>loc. target store loc \<noteq> None) (refs_in d document)"
      unfolding all_loadable_def list_all_iff by force
    with l show ?thesis unfolding list_all_iff by (rule bspec [rotated])
  qed
  then show ?thesis unfolding closed_def by blast
qed

lemma resolve_agree:
  assumes "resolve n store cur prog cache node = Some x"
    and "resolve m store cur prog cache node = Some y"
  shows "x = y"
proof -
  from resolve_mono [OF assms(1), of "max n m"]
  have "resolve (max n m) store cur prog cache node = Some x" by simp
  moreover from resolve_mono [OF assms(2), of "max n m"]
  have "resolve (max n m) store cur prog cache node = Some y" by simp
  ultimately show ?thesis by simp
qed

lemma circular_fails:
  assumes "circular store entry document"
  shows "\<exists>err. \<exists>k. \<forall>m\<ge>k. resolve m store entry [] [] document = Some (Inl err)"
proof -
  let ?k = "card ({loc. target store loc \<noteq> None} - set [])"
  have "?k \<le> ?k" by simp
  from resolve_total [OF this, of entry "[]" document] obtain k where
    k: "\<forall>m\<ge>k. resolve m store entry [] [] document \<noteq> None" ..
  then have "resolve k store entry [] [] document \<noteq> None" by simp
  then obtain r where r: "resolve k store entry [] [] document = Some r"
    by (cases "resolve k store entry [] [] document") simp_all
  from assms obtain a where a: "a \<in> set (refs_in entry document)"
    and l: "leads_to_cycle store a"
    unfolding circular_def leads_to_cycle_def by blast
  show ?thesis
  proof (cases r)
    case (Inl err)
    have "\<forall>m\<ge>k. resolve m store entry [] [] document = Some (Inl err)"
    proof (intro allI impI)
      fix m :: nat assume "k \<le> m"
      with r Inl show "resolve m store entry [] [] document = Some (Inl err)"
        using resolve_mono [of k store entry "[]" "[]" document r m] by simp
    qed
    then have "\<exists>k. \<forall>m\<ge>k. resolve m store entry [] [] document = Some (Inl err)"
      by (rule exI)
    then show ?thesis by (rule exI)
  next
    case (Inr rc)
    obtain res cache' where "rc = (res, cache')" by (cases rc)
    with r Inr have "resolve k store entry [] [] document = Some (Inr (res, cache'))" by simp
    from resolve_success [OF this]
    have "\<forall>loc\<in>set (refs_in entry document). \<not> leads_to_cycle store loc" by simp
    with a l have False by blast
    then show ?thesis ..
  qed
qed


lemma processFile_parser_error:
  "dereference e f = Inl msg \<Longrightarrow>
   processFile fuel e f
     = Some ([Processing (basename_ext f (extname f)), DereferenceError msg,
              FailedToProcess (basename f) msg],
             DereferenceFailed msg)"
  by (simp add: processFile_def dereferenceSpec_def Let_def)

text \<open>
  C7, against the resolver of the specification. Let a document of the store contain a
  circular chain, and let the reference parser of the environment return for it what the
  resolver returns. Then the resolver returns an error, for every amount of fuel that is
  enough, and returns a resolved document for none: the chain is not cut short. When
  every reference of the store names a location that can be loaded, the error is the
  circular-reference error, and the cycle it names starts at a location that occurs in it
  again. The generator prints the error and the failure line for the file and writes
  nothing for it, in a run of any kind.
\<close>

theorem C7_circular_document_fails:
  assumes doc: "map_of store entry = Some document"
    and circ: "circular store entry document"
    and lib: "resolveDocument n store entry = Some (dereference e entry)"
  shows "\<exists>err.
      (\<exists>k. \<forall>m\<ge>k. resolveDocument m store entry = Some (Inl (error_message err)))
      \<and> (\<forall>m resolved. resolveDocument m store entry \<noteq> Some (Inr resolved))
      \<and> (closed store \<longrightarrow> names_cycle err)
      \<and> dereference e entry = Inl (error_message err)
      \<and> (\<forall>fuel. processFile fuel e entry
            = Some ([Processing (basename_ext entry (extname entry)),
                     DereferenceError (error_message err),
                     FailedToProcess (basename entry) (error_message err)],
                    DereferenceFailed (error_message err)))
      \<and> (\<forall>fuel sf r res. generateSpecs fuel e sf = Some r \<and> (entry, res) \<in> set (files r)
            \<longrightarrow> artifact res = None)"
proof -
  from circular_fails [OF circ] obtain err k where
    k: "\<forall>m\<ge>k. resolve m store entry [] [] document = Some (Inl err)" by blast
  then have rk: "resolve k store entry [] [] document = Some (Inl err)" by simp
  have 1: "\<forall>m\<ge>k. resolveDocument m store entry = Some (Inl (error_message err))"
    using k doc by (simp add: resolveDocument_def)
  have 2: "resolveDocument m store entry \<noteq> Some (Inr resolved)" for m resolved
  proof
    assume "resolveDocument m store entry = Some (Inr resolved)"
    with doc obtain c where "resolve m store entry [] [] document = Some (Inr (resolved, c))"
      by (auto simp: resolveDocument_def split: option.splits sum.splits)
    from resolve_agree [OF this rk] show False by simp
  qed
  have 3: "names_cycle err" if "closed store"
  proof (rule resolve_error_is_circular [OF that rk])
    show "\<forall>loc\<in>set (refs_in entry document). target store loc \<noteq> None"
      using that doc unfolding closed_def by blast
  qed
  from 1 have "resolveDocument (max n k) store entry = Some (Inl (error_message err))" by simp
  moreover have "resolveDocument (max n k) store entry = Some (dereference e entry)"
  proof -
    from lib doc obtain x where x: "resolve n store entry [] [] document = Some x"
      by (cases "resolve n store entry [] [] document") (simp_all add: resolveDocument_def)
    from resolve_mono [OF x, of "max n k"]
    have "resolve (max n k) store entry [] [] document = Some x" by simp
    with x doc have "resolveDocument (max n k) store entry = resolveDocument n store entry"
      by (simp add: resolveDocument_def)
    with lib show ?thesis by simp
  qed
  ultimately have 4: "dereference e entry = Inl (error_message err)" by simp
  have 5: "processFile fuel e entry
            = Some ([Processing (basename_ext entry (extname entry)),
                     DereferenceError (error_message err),
                     FailedToProcess (basename entry) (error_message err)],
                    DereferenceFailed (error_message err))" for fuel
    using 4 by (rule processFile_parser_error)
  have 6: "artifact res = None"
    if "generateSpecs fuel e sf = Some r \<and> (entry, res) \<in> set (files r)" for fuel sf r res
  proof -
    from that have g: "generateSpecs fuel e sf = Some r" and f: "(entry, res) \<in> set (files r)"
      by simp_all
    from generateSpecs_files [OF g f] obtain out where
      "processFile fuel e entry = Some (out, res)" ..
    with 5 [of fuel] have "res = DereferenceFailed (error_message err)" by simp
    then show ?thesis by simp
  qed
  have a: "\<exists>k. \<forall>m\<ge>k. resolveDocument m store entry = Some (Inl (error_message err))"
    by (rule exI [where x = k]) (rule 1)
  have b: "\<forall>m resolved. resolveDocument m store entry \<noteq> Some (Inr resolved)"
    by (intro allI) (rule 2)
  have c: "closed store \<longrightarrow> names_cycle err" by (rule impI) (rule 3)
  have d: "\<forall>fuel. processFile fuel e entry
            = Some ([Processing (basename_ext entry (extname entry)),
                     DereferenceError (error_message err),
                     FailedToProcess (basename entry) (error_message err)],
                    DereferenceFailed (error_message err))"
    by (rule allI) (rule 5)
  have f: "\<forall>fuel sf r res. generateSpecs fuel e sf = Some r \<and> (entry, res) \<in> set (files r)
            \<longrightarrow> artifact res = None"
    by (intro allI impI) (rule 6)
  show ?thesis
    by (rule exI [where x = err]) (rule conjI [OF a conjI [OF b conjI [OF c conjI [OF 4 conjI [OF d f]]]]])
qed


text \<open>
  C7 as stated fails: a document with a circular chain whose first reference names a
  document that cannot be loaded fails with the resolution-failure error for that
  reference, which the depth-first traversal meets before the chain.
\<close>

theorem C7_counterexample:
  "map_of dangling_store ''/repo/alchemy/specs/c.yaml'' = Some dangling_doc
   \<and> circular dangling_store ''/repo/alchemy/specs/c.yaml'' dangling_doc
   \<and> resolveDocument 3 dangling_store ''/repo/alchemy/specs/c.yaml''
       = Some (Inl ''Cannot resolve /repo/alchemy/specs/missing.yaml#/x'')"
proof -
  let ?c = "''/repo/alchemy/specs/c.yaml''"
  let ?l = "(?c, [''second''])"
  have 1: "map_of dangling_store ?c = Some dangling_doc" by (simp add: dangling_store_def)
  have a: "?l \<in> set (refs_in ?c dangling_doc)" by code_simp
  have "ref_step dangling_store ?l ?l" by code_simp
  then have "(ref_step dangling_store)\<^sup>+\<^sup>+ ?l ?l" by (rule tranclp.r_into_trancl)
  moreover have "(ref_step dangling_store)\<^sup>*\<^sup>* ?l ?l" by (rule rtranclp.rtrancl_refl)
  ultimately have 2: "circular dangling_store ?c dangling_doc"
    unfolding circular_def using a by blast
  have 3: "resolveDocument 3 dangling_store ?c
       = Some (Inl ''Cannot resolve /repo/alchemy/specs/missing.yaml#/x'')" by code_simp
  from 1 2 3 show ?thesis by (intro conjI)
qed

theorem C7_witness:
  "map_of cyclic_store ''/repo/alchemy/specs/a.yaml'' = Some cyclic_doc
   \<and> circular cyclic_store ''/repo/alchemy/specs/a.yaml'' cyclic_doc
   \<and> resolveDocument 20 cyclic_store ''/repo/alchemy/specs/a.yaml'' = Some (dereference (sample_env [(''a.yaml'', Inl ''Circular reference: /repo/alchemy/specs/b.yaml#/schemas/B /repo/alchemy/specs/a.yaml#/methods/0/result /repo/alchemy/specs/b.yaml#/schemas/B'')]) ''/repo/alchemy/specs/a.yaml'')
   \<and> closed cyclic_store
   \<and> (\<exists>err. names_cycle err \<and> error_message err = ''Circular reference: /repo/alchemy/specs/b.yaml#/schemas/B /repo/alchemy/specs/a.yaml#/methods/0/result /repo/alchemy/specs/b.yaml#/schemas/B'')
   \<and> processFile 0 (sample_env [(''a.yaml'', Inl ''Circular reference: /repo/alchemy/specs/b.yaml#/schemas/B /repo/alchemy/specs/a.yaml#/methods/0/result /repo/alchemy/specs/b.yaml#/schemas/B'')]) ''/repo/alchemy/specs/a.yaml''
       = Some ([Processing ''a'', DereferenceError ''Circular reference: /repo/alchemy/specs/b.yaml#/schemas/B /repo/alchemy/specs/a.yaml#/methods/0/result /repo/alchemy/specs/b.yaml#/schemas/B'', FailedToProcess ''a.yaml'' ''Circular reference: /repo/alchemy/specs/b.yaml#/schemas/B /repo/alchemy/specs/a.yaml#/methods/0/result /repo/alchemy/specs/b.yaml#/schemas/B''],
               DereferenceFailed ''Circular reference: /repo/alchemy/specs/b.yaml#/schemas/B /repo/alchemy/specs/a.yaml#/methods/0/result /repo/alchemy/specs/b.yaml#/schemas/B'')"
proof -
  let ?a = "''/repo/alchemy/specs/a.yaml''"
  let ?e = "sample_env [(''a.yaml'', Inl ''Circular reference: /repo/alchemy/specs/b.yaml#/schemas/B /repo/alchemy/specs/a.yaml#/methods/0/result /repo/alchemy/specs/b.yaml#/schemas/B'')]"
  let ?msg = "''Circular reference: /repo/alchemy/specs/b.yaml#/schemas/B /repo/alchemy/specs/a.yaml#/methods/0/result /repo/alchemy/specs/b.yaml#/schemas/B''"
  let ?l = "(''/repo/alchemy/specs/b.yaml'', [''schemas'', ''B''])"
  let ?k = "(''/repo/alchemy/specs/a.yaml'', [''methods'', ''0'', ''result''])"
  have 1: "map_of cyclic_store ?a = Some cyclic_doc" by (simp add: cyclic_store_def)
  have a: "?l \<in> set (refs_in ?a cyclic_doc)" by code_simp
  have s1: "ref_step cyclic_store ?l ?k" by code_simp
  have s2: "ref_step cyclic_store ?k ?l" by code_simp
  from s1 have "(ref_step cyclic_store)\<^sup>+\<^sup>+ ?l ?k" by (rule tranclp.r_into_trancl)
  from this s2 have "(ref_step cyclic_store)\<^sup>+\<^sup>+ ?l ?l" by (rule tranclp.trancl_into_trancl)
  moreover have "(ref_step cyclic_store)\<^sup>*\<^sup>* ?l ?l" by (rule rtranclp.rtrancl_refl)
  ultimately have 2: "circular cyclic_store ?a cyclic_doc"
    unfolding circular_def using a by blast
  have 3: "resolveDocument 20 cyclic_store ?a = Some (dereference ?e ?a)" by code_simp
  have "all_loadable cyclic_store" by code_simp
  then have 4: "closed cyclic_store" by (rule all_loadable_closed)
  have d: "dereference ?e ?a = Inl ?msg" by code_simp
  have b: "basename ?a = ''a.yaml''" by code_simp
  have n: "basename_ext ?a (extname ?a) = ''a''" by code_simp
  from C7_circular_document_fails [OF 1 2 3] obtain err where
    c: "closed cyclic_store \<longrightarrow> names_cycle err"
    and m: "dereference ?e ?a = Inl (error_message err)"
    and p: "\<forall>fuel. processFile fuel ?e ?a
            = Some ([Processing (basename_ext ?a (extname ?a)),
                     DereferenceError (error_message err),
                     FailedToProcess (basename ?a) (error_message err)],
                    DereferenceFailed (error_message err))"
    by blast
  from m d have msg: "error_message err = ?msg" by simp
  from c 4 have "names_cycle err" by simp
  with msg have 5: "\<exists>err. names_cycle err \<and> error_message err = ?msg" by blast
  from p have "processFile 0 ?e ?a
            = Some ([Processing (basename_ext ?a (extname ?a)),
                     DereferenceError (error_message err),
                     FailedToProcess (basename ?a) (error_message err)],
                    DereferenceFailed (error_message err))" by (rule spec)
  then have 6: "processFile 0 ?e ?a
       = Some ([Processing ''a'', DereferenceError ?msg, FailedToProcess ''a.yaml'' ?msg],
               DereferenceFailed ?msg)"
    unfolding msg b n .
  from 1 2 3 4 5 6 show ?thesis by (intro conjI)
qed

end
